theory Spec2Isabelle
  imports Main
begin

section \<open>OTP extraction engine\<close>

text \<open>
  The method \<open>ProfessionalMultiUserOTPBot.extract_otp\<close> runs \<open>re.findall\<close> with
  \<open>re.IGNORECASE\<close> over a fixed list of twelve patterns. The regular-expression
  library is not part of the repository, so the fragment the patterns use is modelled
  here as a backtracking matcher: literals compared without regard to case, the word
  boundary \<open>\b\<close>, the greedy star over the class \<open>[:\s-]\<close>, and the greedy capturing
  group \<open>(\d{m,n})\<close>.

  The texts are Python strings, that is, sequences of Unicode characters, and the
  patterns are compiled for strings, so \<open>\d\<close>, \<open>\w\<close>, \<open>\s\<close>, \<open>\b\<close>, the caseless
  comparison and \<open>str.isdigit\<close> follow the character tables of the Python runtime.
  Those tables are not part of the repository either. They are a parameter of the
  model: the type \<open>'c\<close> of the characters of a text is arbitrary, and a record gives

    \<^item> \<open>cs_digit\<close>: the characters that \<open>\d\<close> matches;
    \<^item> \<open>cs_word\<close>: the characters that \<open>\w\<close> matches, which also decide \<open>\b\<close>;
    \<^item> \<open>cs_space\<close>: the characters that \<open>\s\<close> matches, which are also the ones
      that \<open>str.strip()\<close> removes;
    \<^item> \<open>cs_ci p c\<close>: under \<open>re.IGNORECASE\<close> the character \<open>p\<close> of a pattern matches
      the character \<open>c\<close> of a text (the patterns of the source are ASCII, so \<open>p\<close> is
      a \<open>char\<close>);
    \<^item> \<open>cs_isdigit\<close>: the characters \<open>c\<close> for which \<open>c.isdigit()\<close> holds;
    \<^item> \<open>cs_chr p\<close>: the character of a text that the ASCII character \<open>p\<close> denotes.
\<close>

record 'c charset =
  cs_digit :: "'c \<Rightarrow> bool"
  cs_word :: "'c \<Rightarrow> bool"
  cs_space :: "'c \<Rightarrow> bool"
  cs_ci :: "char \<Rightarrow> 'c \<Rightarrow> bool"
  cs_isdigit :: "'c \<Rightarrow> bool"
  cs_chr :: "char \<Rightarrow> 'c"

text \<open>
  The character class \<open>[:\s-]\<close> of the keyword patterns. Neither \<open>:\<close> nor \<open>-\<close> has
  another case, so the class is the same with and without \<open>re.IGNORECASE\<close>.
\<close>

definition is_sep :: "'c charset \<Rightarrow> 'c \<Rightarrow> bool" where
  "is_sep cs c = (c = cs_chr cs CHR '':'' \<or> cs_space cs c \<or> c = cs_chr cs CHR ''-'')"

datatype cclass = Digit | Sep

fun in_class :: "'c charset \<Rightarrow> cclass \<Rightarrow> 'c \<Rightarrow> bool" where
  "in_class cs Digit c = cs_digit cs c"
| "in_class cs Sep c = is_sep cs c"

text \<open>
  One element of a pattern. \<open>Group m n\<close> is the capturing group \<open>(\d{m,n})\<close>; every
  pattern of the source has exactly one.
\<close>

datatype atom = Lit string | WordB | Star cclass | Group nat nat

type_synonym pattern = "atom list"

text \<open>
  \<open>\b\<close> holds between two positions when exactly one of the neighbouring characters is
  a word character; outside the text counts as a non-word character.
\<close>

definition word_opt :: "'c charset \<Rightarrow> 'c option \<Rightarrow> bool" where
  "word_opt cs p = (case p of None \<Rightarrow> False | Some c \<Rightarrow> cs_word cs c)"

definition next_char :: "'c list \<Rightarrow> 'c option" where
  "next_char s = (case s of [] \<Rightarrow> None | c # _ \<Rightarrow> Some c)"

definition boundary :: "'c charset \<Rightarrow> 'c option \<Rightarrow> 'c list \<Rightarrow> bool" where
  "boundary cs prev s = (word_opt cs prev \<noteq> word_opt cs (next_char s))"

text \<open>The character before the position reached after consuming \<open>n\<close> characters of \<open>s\<close>.\<close>

definition prev_after :: "'c option \<Rightarrow> 'c list \<Rightarrow> nat \<Rightarrow> 'c option" where
  "prev_after prev s n = (if n = 0 then prev else Some (s ! (n - 1)))"

text \<open>
  Greedy repetition with backtracking: try the count \<open>k\<close> first, then \<open>k - 1\<close>, down to
  \<open>lo\<close>, and keep the first count for which the rest of the pattern matches.
\<close>

fun first_down :: "(nat \<Rightarrow> 'a option) \<Rightarrow> nat \<Rightarrow> nat \<Rightarrow> 'a option" where
  "first_down f lo 0 = (if lo = 0 then f 0 else None)"
| "first_down f lo (Suc k) =
     (if Suc k < lo then None
      else case f (Suc k) of
             Some r \<Rightarrow> Some r
           | None \<Rightarrow> first_down f lo k)"

text \<open>
  \<open>match_here cs p prev s g\<close> matches the pattern \<open>p\<close> at the start of \<open>s\<close>, where
  \<open>prev\<close> is the character before \<open>s\<close> in the whole text and \<open>g\<close> the group captured
  so far. It returns the captured group and the number of characters consumed. A
  literal is compared character by character with the caseless comparison of the
  runtime.
\<close>

fun match_here ::
  "'c charset \<Rightarrow> pattern \<Rightarrow> 'c option \<Rightarrow> 'c list \<Rightarrow> 'c list \<Rightarrow> ('c list \<times> nat) option" where
  "match_here cs [] prev s g = Some (g, 0)"
| "match_here cs (Lit w # p) prev s g =
     (if length w \<le> length s \<and> list_all2 (cs_ci cs) w (take (length w) s)
      then map_option (\<lambda>(g', n). (g', length w + n))
             (match_here cs p (prev_after prev s (length w)) (drop (length w) s) g)
      else None)"
| "match_here cs (WordB # p) prev s g =
     (if boundary cs prev s then match_here cs p prev s g else None)"
| "match_here cs (Star c # p) prev s g =
     first_down
       (\<lambda>k. map_option (\<lambda>(g', n). (g', k + n))
              (match_here cs p (prev_after prev s k) (drop k s) g))
       0 (length (takeWhile (in_class cs c) s))"
| "match_here cs (Group lo hi # p) prev s g =
     first_down
       (\<lambda>k. map_option (\<lambda>(g', n). (g', k + n))
              (match_here cs p (prev_after prev s k) (drop k s) (take k s)))
       lo (min hi (length (takeWhile (cs_digit cs) s)))"

text \<open>
  \<open>re.findall\<close> with one group: scan from left to right, at each position try the
  pattern, collect the group of each match and resume after the match. \<open>skip\<close> counts the
  characters of the last match still to be stepped over. No pattern of the source
  matches the empty string, so a match always consumes at least four characters.
\<close>

fun findall_from :: "'c charset \<Rightarrow> pattern \<Rightarrow> 'c option \<Rightarrow> 'c list \<Rightarrow> nat \<Rightarrow> 'c list list" where
  "findall_from cs p prev [] skip = []"
| "findall_from cs p prev (c # rest) skip =
     (if 0 < skip then findall_from cs p (Some c) rest (skip - 1)
      else case match_here cs p prev (c # rest) [] of
             Some (g, n) \<Rightarrow> g # findall_from cs p (Some c) rest (n - 1)
           | None \<Rightarrow> findall_from cs p (Some c) rest 0)"

definition findall :: "'c charset \<Rightarrow> pattern \<Rightarrow> 'c list \<Rightarrow> 'c list list" where
  "findall cs p text = findall_from cs p None text 0"

text \<open>The patterns \<open>\b(\d{k})\b\<close> and \<open>kw[:\s-]*(\d{4,8})\<close>.\<close>

definition bare :: "nat \<Rightarrow> pattern" where
  "bare k = [WordB, Group k k, WordB]"

definition keyword :: "string \<Rightarrow> pattern" where
  "keyword w = [Lit w, Star Sep, Group 4 8]"

definition patterns :: "pattern list" where
  "patterns =
     [bare 6, bare 4, bare 5, bare 8,
      keyword ''code'', keyword ''verification'', keyword ''otp'', keyword ''pin'',
      keyword ''token'', keyword ''confirm'', keyword ''authenticate'',
      keyword ''security'']"

text \<open>\<open>str.isdigit\<close>: the string is not empty and \<open>isdigit\<close> holds of each character.\<close>

definition isdigit :: "'c charset \<Rightarrow> 'c list \<Rightarrow> bool" where
  "isdigit cs s = (s \<noteq> [] \<and> list_all (cs_isdigit cs) s)"

definition valid_code :: "'c charset \<Rightarrow> 'c list \<Rightarrow> bool" where
  "valid_code cs code = (4 \<le> length code \<and> length code \<le> 8 \<and> isdigit cs code)"

text \<open>
  What the capturing group of every pattern can hold: four to eight characters that
  \<open>\d\<close> matches.
\<close>

definition digit_run :: "'c charset \<Rightarrow> 'c list \<Rightarrow> bool" where
  "digit_run cs g = (4 \<le> length g \<and> length g \<le> 8 \<and> list_all (cs_digit cs) g)"

text \<open>The inner loop: the first match of one pattern that passes the check.\<close>

fun first_valid :: "'c charset \<Rightarrow> 'c list list \<Rightarrow> 'c list option" where
  "first_valid cs [] = None"
| "first_valid cs (m # ms) = (if valid_code cs m then Some m else first_valid cs ms)"

text \<open>The outer loop over the patterns, returning at the first hit.\<close>

fun extract_loop :: "'c charset \<Rightarrow> pattern list \<Rightarrow> 'c list \<Rightarrow> 'c list option" where
  "extract_loop cs [] text = None"
| "extract_loop cs (p # ps) text =
     (case first_valid cs (findall cs p text) of
        Some code \<Rightarrow> Some code
      | None \<Rightarrow> extract_loop cs ps text)"

text \<open>
  The argument is \<open>None\<close> for Python's \<open>None\<close>; \<open>not text\<close> holds for \<open>None\<close> and
  for the empty string.
\<close>

fun extract_otp :: "'c charset \<Rightarrow> 'c list option \<Rightarrow> 'c list option" where
  "extract_otp cs None = None"
| "extract_otp cs (Some text) = (if text = [] then None else extract_loop cs patterns text)"

subsection \<open>What the tables of the runtime have in common\<close>

text \<open>
  In every Python runtime a character that \<open>\d\<close> matches is a decimal digit of
  Unicode. Such a character is alphanumeric, so \<open>\w\<close> matches it, and \<open>str.isdigit\<close>
  holds of it (\<open>str.isdigit\<close> accepts the decimal digits and further digit characters,
  such as the superscript digits, which \<open>\d\<close> does not match).
\<close>

definition digits_coherent :: "'c charset \<Rightarrow> bool" where
  "digits_coherent cs = (\<forall>c. cs_digit cs c \<longrightarrow> cs_word cs c \<and> cs_isdigit cs c)"

text \<open>
  Two characters that differ at most in case: the matcher cannot tell them apart. They
  are equal, or neither is a digit, they are both word characters or both not, both
  separators or both not, and the caseless comparison relates the same characters of a
  pattern to both.
\<close>

definition case_variants :: "'c charset \<Rightarrow> 'c \<Rightarrow> 'c \<Rightarrow> bool" where
  "case_variants cs c d =
     (c = d \<or>
      (\<not> cs_digit cs c \<and> \<not> cs_digit cs d \<and> cs_word cs c = cs_word cs d \<and>
       is_sep cs c = is_sep cs d \<and> (\<forall>p. cs_ci cs p c = cs_ci cs p d)))"

subsection \<open>Bare digit runs\<close>

text \<open>
  The spec's notion of a bare \<open>k\<close>-digit run of a text \<open>t\<close>, starting at index \<open>i\<close>:
  \<open>k\<close> consecutive digits that stand alone as a token, that is, the character before
  them (if any) and the character after them (if any) are not word characters. A run of
  digits glued to a letter, another digit or an underscore is not bare. Digits and word
  characters are those of the runtime.
\<close>

definition bare_run_at :: "'c charset \<Rightarrow> 'c list \<Rightarrow> nat \<Rightarrow> nat \<Rightarrow> bool" where
  "bare_run_at cs t k i =
     (i + k \<le> length t \<and> list_all (cs_digit cs) (take k (drop i t)) \<and>
      (i = 0 \<or> \<not> cs_word cs (t ! (i - 1))) \<and>
      (i + k = length t \<or> \<not> cs_word cs (t ! (i + k))))"

text \<open>The character before index \<open>n\<close> of \<open>t\<close>.\<close>

definition prev_at :: "'c list \<Rightarrow> nat \<Rightarrow> 'c option" where
  "prev_at t n = (if n = 0 then None else Some (t ! (n - 1)))"

subsection \<open>The tables on ASCII texts\<close>

text \<open>
  On the ASCII characters the tables of Python are: \<open>\d\<close> and \<open>str.isdigit\<close> hold of
  \<open>0\<close> to \<open>9\<close>; \<open>\w\<close> of the letters, the digits and the underscore; \<open>\s\<close> of the
  space and the control characters 9 to 13 and 28 to 31; and the caseless comparison
  identifies an upper-case letter with its lower-case letter. The record \<open>ascii\<close> holds
  these tables. It is used for the concrete texts of this development, which are all
  ASCII; it says nothing about the characters outside ASCII.
\<close>

definition ascii_digit :: "char \<Rightarrow> bool" where
  "ascii_digit c = (c \<in> set ''0123456789'')"

definition ascii_alpha :: "char \<Rightarrow> bool" where
  "ascii_alpha c =
     (c \<in> set ''abcdefghijklmnopqrstuvwxyz'' \<or> c \<in> set ''ABCDEFGHIJKLMNOPQRSTUVWXYZ'')"

definition ascii_word :: "char \<Rightarrow> bool" where
  "ascii_word c = (ascii_alpha c \<or> ascii_digit c \<or> c = CHR ''_'')"

definition ascii_space :: "char \<Rightarrow> bool" where
  "ascii_space c =
     (c \<in> set [CHR '' '', CHR 0x09, CHR 0x0A, CHR 0x0B, CHR 0x0C, CHR 0x0D,
                CHR 0x1C, CHR 0x1D, CHR 0x1E, CHR 0x1F])"

definition ascii_lower :: "char \<Rightarrow> char" where
  "ascii_lower c =
     (case map_of (zip ''ABCDEFGHIJKLMNOPQRSTUVWXYZ'' ''abcdefghijklmnopqrstuvwxyz'') c of
        Some d \<Rightarrow> d
      | None \<Rightarrow> c)"

definition ascii :: "char charset" where
  "ascii =
     \<lparr>cs_digit = ascii_digit, cs_word = ascii_word, cs_space = ascii_space,
      cs_ci = (\<lambda>p c. ascii_lower p = ascii_lower c), cs_isdigit = ascii_digit,
      cs_chr = (\<lambda>p. p)\<rparr>"

section \<open>Notification dispatcher\<close>

text \<open>
  \<open>send_message\<close> posts to the chat transport up to \<open>max_retries\<close> times. The
  transport is outside the repository: \<open>post attempt\<close> is what the request of the
  given attempt does, a response with a status code and a payload (\<open>None\<close> when
  decoding the payload with \<open>response.json()\<close> raises), or an exception.
\<close>

datatype post_result = Response nat "string option" | PostRaises

datatype log_entry = LogInfo string | LogWarning string | LogError string

record send_out =
  result :: "string option"
  attempts :: nat
  slept :: nat
  send_log :: "log_entry list"

definition max_retries :: nat where
  "max_retries = 3"

text \<open>\<open>if attempt < max_retries - 1: time.sleep(1)\<close>\<close>

definition pause :: "nat \<Rightarrow> send_out \<Rightarrow> send_out" where
  "pause attempt out =
     (if attempt < max_retries - 1 then out\<lparr>slept := slept out + 1\<rparr> else out)"

definition failed_attempt :: "log_entry \<Rightarrow> send_out \<Rightarrow> send_out" where
  "failed_attempt entry out =
     out\<lparr>attempts := attempts out + 1, send_log := send_log out @ [entry]\<rparr>"

text \<open>
  The loop \<open>for attempt in range(max_retries)\<close>. A response with status 200 whose
  payload decodes ends the call; everything else is logged, followed by the pause, and
  the loop goes on. Falling out of the loop returns \<open>None\<close>.
\<close>

fun send_loop :: "(nat \<Rightarrow> post_result) \<Rightarrow> nat list \<Rightarrow> send_out \<Rightarrow> send_out" where
  "send_loop post [] out = out"
| "send_loop post (attempt # rest) out =
     (case post attempt of
        Response code payload \<Rightarrow>
          (if code = 200
           then (case payload of
                   Some j \<Rightarrow> out\<lparr>result := Some j, attempts := attempts out + 1\<rparr>
                 | None \<Rightarrow>
                     send_loop post rest
                       (pause attempt (failed_attempt (LogError ''Error sending message'') out)))
           else send_loop post rest
                  (pause attempt (failed_attempt (LogWarning ''Message send failed'') out)))
      | PostRaises \<Rightarrow>
          send_loop post rest
            (pause attempt (failed_attempt (LogError ''Error sending message'') out)))"

definition send_message :: "(nat \<Rightarrow> post_result) \<Rightarrow> send_out" where
  "send_message post =
     send_loop post [0..<max_retries]
       \<lparr>result = None, attempts = 0, slept = 0, send_log = []\<rparr>"

text \<open>An attempt that ends the loop: status 200 and a payload that decodes.\<close>

definition succeeds :: "post_result \<Rightarrow> bool" where
  "succeeds r =
     (case r of Response code payload \<Rightarrow> code = 200 \<and> payload \<noteq> None | PostRaises \<Rightarrow> False)"

section \<open>Per-user poller\<close>

text \<open>
  The state one monitoring thread works on, for one chat: the entry of \<open>self.users\<close>
  (the dedup cache \<open>last_processed_emails\<close>, a Python \<open>set\<close>, and
  \<open>last_email_count\<close>), the entry of \<open>self.user_stats\<close> if there is one, the rows of
  the tables \<open>otp_logs\<close> and \<open>users\<close> in the database, and what the thread hands to
  the transport and to the logger. Message identifiers are an arbitrary type \<open>'id\<close>.
\<close>

record mem_stats =
  total_otps :: nat
  last_otp_time :: "nat option"

text \<open>
  The notification text, without the time of day and the two randomly chosen phrases.
\<close>

record notification =
  n_sender :: string
  n_subject :: string
  n_code :: string

record otp_row =
  r_chat :: int
  r_sender_email :: string
  r_sender_name :: string
  r_code :: string
  r_subject :: string
  r_ms :: nat

record 'id poller =
  cache :: "'id set"
  last_email_count :: nat
  stats :: "mem_stats option"
  db_logs :: "otp_row list"
  db_total :: "nat option"
  outbox :: "(notification \<times> bool) list"
  posts :: nat
  seconds :: nat
  log :: "log_entry list"

text \<open>
  The state after \<open>save_user\<close>: an empty cache, a count of zero, fresh counters and
  the row of the user in the database.
\<close>

definition new_poller :: "'id poller" where
  "new_poller =
     \<lparr>cache = {}, last_email_count = 0,
      stats = Some \<lparr>total_otps = 0, last_otp_time = None\<rparr>,
      db_logs = [], db_total = Some 0, outbox = [], posts = 0, seconds = 0, log = []\<rparr>"

text \<open>
  Where the database can fail inside \<open>log_otp\<close>: at \<open>connect\<close>, at the
  \<open>INSERT\<close>, at the \<open>UPDATE\<close>, at \<open>commit\<close> or at \<open>close\<close>. Nothing is stored
  unless \<open>commit\<close> succeeded.
\<close>

datatype db_fault = NoFault | ConnectFails | InsertFails | UpdateFails | CommitFails | CloseFails

definition committed :: "db_fault \<Rightarrow> bool" where
  "committed f = (f = NoFault \<or> f = CloseFails)"

text \<open>
  \<open>log_otp\<close>. The whole body is one \<open>try\<close> block: the two statements and the
  commit, then the update of the counters in memory, then the info line. An exception
  anywhere skips the rest and logs an error.
\<close>

definition log_otp :: "db_fault \<Rightarrow> nat \<Rightarrow> otp_row \<Rightarrow> 'id poller \<Rightarrow> 'id poller" where
  "log_otp f now row s =
     (let s1 = (if committed f
                then s\<lparr>db_logs := db_logs s @ [row],
                       db_total := map_option (\<lambda>n. n + 1) (db_total s)\<rparr>
                else s)
      in if f = NoFault
         then s1\<lparr>stats := map_option
                     (\<lambda>st. st\<lparr>total_otps := total_otps st + 1, last_otp_time := Some now\<rparr>)
                     (stats s1),
                 log := log s1 @ [LogInfo ''OTP logged'']\<rparr>
         else s1\<lparr>log := log s1 @ [LogError ''Error logging OTP'']\<rparr>)"

text \<open>Handing a notification to \<open>send_message\<close>; the flag records whether it was delivered.\<close>

definition deliver :: "(nat \<Rightarrow> post_result) \<Rightarrow> notification \<Rightarrow> 'id poller \<Rightarrow> 'id poller" where
  "deliver post n s =
     (let out = send_message post
      in s\<lparr>outbox := outbox s @ [(n, result out \<noteq> None)],
           posts := posts s + attempts out,
           seconds := seconds s + slept out,
           log := log s @ send_log out\<rparr>)"

text \<open>
  What \<open>mail.fetch\<close> and the decoding of the message give for one candidate: an
  exception, a status other than OK, or the decoded sender, subject and plain-text body.
\<close>

record email_msg =
  sender_name :: string
  sender_email :: string
  subject :: string
  body :: string

datatype fetch_result = FetchRaises | FetchNotOK | Fetched email_msg

text \<open>
  What is outside the repository when one candidate is processed: the character tables
  of the runtime (\<open>chars\<close>), the answer of the mailbox, the transport, the database
  and the clock.
\<close>

record cand_env =
  chars :: "char charset"
  fetch :: fetch_result
  post :: "nat \<Rightarrow> post_result"
  fault :: db_fault
  now :: nat
  detection_ms :: nat

text \<open>The subject first, the body only when the subject gives no code.\<close>

definition find_otp :: "char charset \<Rightarrow> email_msg \<Rightarrow> string option" where
  "find_otp cs m =
     (case extract_otp cs (Some (subject m)) of
        Some code \<Rightarrow> Some code
      | None \<Rightarrow> extract_otp cs (Some (body m)))"

text \<open>
  The clean-up at the end of the loop body. \<open>list(s)[:50]\<close> takes the first fifty
  elements in the iteration order of the set, which Python does not specify: \<open>order\<close>
  is that order.
\<close>

definition evict :: "('id set \<Rightarrow> 'id list) \<Rightarrow> 'id set \<Rightarrow> 'id set" where
  "evict order c = (if 100 < card c then c - set (take 50 (order c)) else c)"

datatype outcome = Completed | Raised

text \<open>
  The body of \<open>for email_id in reversed(email_ids[-5:])\<close> for one candidate. An
  exception leaves the loop and the cycle; what was changed before it stays changed.
\<close>

definition process_candidate ::
  "('id set \<Rightarrow> 'id list) \<Rightarrow> int \<Rightarrow> cand_env \<Rightarrow> 'id \<Rightarrow> 'id poller \<Rightarrow> 'id poller \<times> outcome" where
  "process_candidate order chat e x s =
     (if x \<in> cache s then (s, Completed)
      else
        let s1 = s\<lparr>cache := insert x (cache s)\<rparr>
        in case fetch e of
             FetchRaises \<Rightarrow> (s1, Raised)
           | FetchNotOK \<Rightarrow> (s1\<lparr>cache := evict order (cache s1)\<rparr>, Completed)
           | Fetched m \<Rightarrow>
               (let s2 =
                  (case find_otp (chars e) m of
                     None \<Rightarrow> s1
                   | Some otp \<Rightarrow>
                       log_otp (fault e) (now e)
                         \<lparr>r_chat = chat, r_sender_email = sender_email m,
                          r_sender_name = sender_name m, r_code = otp,
                          r_subject = subject m, r_ms = detection_ms e\<rparr>
                         (deliver (post e)
                            \<lparr>n_sender = sender_name m, n_subject = subject m, n_code = otp\<rparr>
                            s1))
                in (s2\<lparr>cache := evict order (cache s2)\<rparr>, Completed)))"

fun run_candidates ::
  "('id set \<Rightarrow> 'id list) \<Rightarrow> int \<Rightarrow> ('id \<Rightarrow> cand_env) \<Rightarrow> 'id list \<Rightarrow> 'id poller \<Rightarrow>
     'id poller \<times> outcome" where
  "run_candidates order chat env [] s = (s, Completed)"
| "run_candidates order chat env (x # xs) s =
     (case process_candidate order chat (env x) x s of
        (s', Raised) \<Rightarrow> (s', Raised)
      | (s', Completed) \<Rightarrow> run_candidates order chat env xs s')"

text \<open>\<open>reversed(email_ids[-5:])\<close>\<close>

definition candidates :: "'id list \<Rightarrow> 'id list" where
  "candidates email_ids = rev (drop (length email_ids - 5) email_ids)"

text \<open>
  One pass of the \<open>while\<close> loop. \<open>login_ok\<close> is false when connecting, logging in or
  selecting the inbox raises; \<open>inbox_count\<close> is the message count when the status call
  answers OK; \<open>unseen\<close> is the list of identifiers when the search answers OK with a
  non-empty list; \<open>logout_ok\<close> is false when closing the mailbox or logging out
  raises. An exception anywhere is logged and followed by a pause of two seconds. The
  pause of 0.2 seconds at the end of every pass is not counted.
\<close>

record 'id cycle_env =
  login_ok :: bool
  inbox_count :: "nat option"
  unseen :: "'id list option"
  cand :: "'id \<Rightarrow> cand_env"
  logout_ok :: bool

definition on_exception :: "'id poller \<Rightarrow> 'id poller" where
  "on_exception s =
     s\<lparr>log := log s @ [LogError ''Gmail monitoring error''], seconds := seconds s + 2\<rparr>"

text \<open>The part of the pass between the login and the logout.\<close>

definition scan_inbox ::
  "('id set \<Rightarrow> 'id list) \<Rightarrow> int \<Rightarrow> 'id cycle_env \<Rightarrow> 'id poller \<Rightarrow> 'id poller \<times> outcome" where
  "scan_inbox order chat ce s =
     (case inbox_count ce of
        None \<Rightarrow> (s, Completed)
      | Some current_count \<Rightarrow>
          if last_email_count s < current_count
          then (case unseen ce of
                  None \<Rightarrow> (s\<lparr>last_email_count := current_count\<rparr>, Completed)
                | Some email_ids \<Rightarrow>
                    run_candidates order chat (cand ce) (candidates email_ids)
                      (s\<lparr>last_email_count := current_count\<rparr>))
          else if last_email_count s = 0
          then (s\<lparr>last_email_count := current_count\<rparr>, Completed)
          else (s, Completed))"

definition poll_cycle ::
  "('id set \<Rightarrow> 'id list) \<Rightarrow> int \<Rightarrow> 'id cycle_env \<Rightarrow> 'id poller \<Rightarrow> 'id poller" where
  "poll_cycle order chat ce s =
     (if \<not> login_ok ce then on_exception s
      else case scan_inbox order chat ce s of
             (s', Raised) \<Rightarrow> on_exception s'
           | (s', Completed) \<Rightarrow> if logout_ok ce then s' else on_exception s')"

fun run_cycles ::
  "('id set \<Rightarrow> 'id list) \<Rightarrow> int \<Rightarrow> 'id cycle_env list \<Rightarrow> 'id poller \<Rightarrow> 'id poller" where
  "run_cycles order chat [] s = s"
| "run_cycles order chat (ce # ces) s = run_cycles order chat ces (poll_cycle order chat ce s)"

text \<open>
  What every iteration order has in common: it lists each element of a finite set
  exactly once.
\<close>

definition enumerates :: "('id set \<Rightarrow> 'id list) \<Rightarrow> bool" where
  "enumerates order = (\<forall>c. finite c \<longrightarrow> distinct (order c) \<and> set (order c) = c)"

text \<open>
  Whether processing a candidate reaches the notification: the message is fetched and
  a code is found in it.
\<close>

definition notifies :: "cand_env \<Rightarrow> bool" where
  "notifies e = (case fetch e of Fetched m \<Rightarrow> find_otp (chars e) m \<noteq> None | _ \<Rightarrow> False)"

subsection \<open>Example inputs\<close>

definition shop_msg :: email_msg where
  "shop_msg =
     \<lparr>sender_name = ''Shop'', sender_email = ''noreply@shop.example'',
      subject = ''Security code: 482913'', body = []\<rparr>"

text \<open>
  The message is fetched, the transport accepts the notification at once and the
  database works.
\<close>

definition env_ok :: cand_env where
  "env_ok =
     \<lparr>chars = ascii, fetch = Fetched shop_msg, post = (\<lambda>k. Response 200 (Some ''ok'')), fault = NoFault,
      now = 10, detection_ms = 350\<rparr>"

definition env_fetch_raises :: cand_env where
  "env_fetch_raises = env_ok\<lparr>fetch := FetchRaises\<rparr>"

definition env_not_ok :: cand_env where
  "env_not_ok = env_ok\<lparr>fetch := FetchNotOK\<rparr>"

text \<open>The same, with a transport that answers every request with status 500.\<close>

definition env_transport_down :: cand_env where
  "env_transport_down = env_ok\<lparr>post := (\<lambda>k. Response 500 None)\<rparr>"

text \<open>A cache that already holds the identifiers from \<open>lo\<close> up to, not including, \<open>hi\<close>.\<close>

definition poller_with :: "nat \<Rightarrow> nat \<Rightarrow> nat poller" where
  "poller_with lo hi = new_poller\<lparr>cache := {lo..<hi}\<rparr>"

text \<open>An iteration order that happens to list the largest identifiers first.\<close>

definition newest_first :: "nat set \<Rightarrow> nat list" where
  "newest_first c = rev (sorted_list_of_set c)"

section \<open>Onboarding\<close>

text \<open>
  The state \<open>handle_user_input\<close> works on: the dictionaries of the bot keyed by chat
  id, the rows of the table \<open>users\<close>, the set of chats a monitoring thread was started
  for, and the messages handed to \<open>send_message\<close>. The waiting state of a chat is
  \<open>'email'\<close> or \<open>'password'\<close>; a chat without an entry is idle. The texts of the
  messages are represented by their kind and the values put into them.
\<close>

datatype wstate = AwaitEmail | AwaitPassword

datatype bot_msg =
    InvalidEmail
  | EmailReceived string
  | StartOver
  | TestingConnection
  | ConnectedOK string
  | ErrorStartingMonitoring
  | ErrorSavingCredentials
  | ConnectionFailed

record user_config =
  u_email :: string
  u_password :: string
  is_monitoring :: bool

record db_user =
  d_username :: string
  d_first_name :: string
  d_email :: string
  d_password_hash :: string
  d_last_active :: nat

record user_info =
  username :: string
  first_name :: string

record bot =
  users :: "int \<rightharpoonup> user_config"
  waiting_states :: "int \<rightharpoonup> wstate"
  temp_credentials :: "int \<rightharpoonup> string"
  user_stats :: "int \<rightharpoonup> mem_stats"
  gmail_locks :: "int set"
  monitoring_threads :: "int set"
  db_users :: "int \<rightharpoonup> db_user"
  sent :: "(int \<times> bot_msg) list"
  bot_log :: "log_entry list"

text \<open>
  What is outside the repository: the login probe against the mailbox, which goes
  through or raises with some error text; whether the database fails inside
  \<open>save_user\<close>; the digest of password and chat id; the clock; the character
  tables of the runtime (\<open>tables\<close>), which say what \<open>str.strip()\<close> removes.
\<close>

datatype probe_result = ProbeOK | ProbeRaises string

record input_env =
  tables :: "char charset"
  probe :: probe_result
  save_fails :: bool
  digest :: "string \<Rightarrow> int \<Rightarrow> string"
  clock :: nat

text \<open>\<open>str.strip()\<close>: the whitespace at both ends is removed.\<close>

definition strip :: "'c charset \<Rightarrow> 'c list \<Rightarrow> 'c list" where
  "strip cs s = rev (dropWhile (cs_space cs) (rev (dropWhile (cs_space cs) s)))"

definition send :: "int \<Rightarrow> bot_msg \<Rightarrow> bot \<Rightarrow> bot" where
  "send chat msg b = b\<lparr>sent := sent b @ [(chat, msg)]\<rparr>"

text \<open>
  \<open>save_user\<close>: the row is written first; when the database raises, nothing in memory
  is touched and the result is \<open>False\<close>.
\<close>

definition save_user ::
  "input_env \<Rightarrow> int \<Rightarrow> string \<Rightarrow> string \<Rightarrow> user_info \<Rightarrow> bot \<Rightarrow> bot \<times> bool" where
  "save_user env chat email password info b =
     (if save_fails env
      then (b\<lparr>bot_log := bot_log b @ [LogError ''Error saving user'']\<rparr>, False)
      else
        (b\<lparr>db_users := (db_users b)(chat \<mapsto>
               \<lparr>d_username = username info, d_first_name = first_name info, d_email = email,
                d_password_hash = digest env password chat, d_last_active = clock env\<rparr>),
            users := (users b)(chat \<mapsto>
               \<lparr>u_email = email, u_password = password, is_monitoring = False\<rparr>),
            user_stats := (user_stats b)(chat \<mapsto> \<lparr>total_otps = 0, last_otp_time = None\<rparr>),
            gmail_locks := insert chat (gmail_locks b),
            bot_log := bot_log b @ [LogInfo ''User saved successfully'']\<rparr>, True))"

definition start_monitoring_for_user :: "int \<Rightarrow> bot \<Rightarrow> bot \<times> bool" where
  "start_monitoring_for_user chat b =
     (case users b chat of
        None \<Rightarrow> (b, False)
      | Some u \<Rightarrow>
          if is_monitoring u then (b, True)
          else
            (b\<lparr>users := (users b)(chat \<mapsto> u\<lparr>is_monitoring := True\<rparr>),
                monitoring_threads := insert chat (monitoring_threads b),
                bot_log := bot_log b @ [LogInfo ''Started monitoring'']\<rparr>, True))"

text \<open>The \<open>try\<close> block of the state \<open>'password'\<close>, after the message about the test.\<close>

definition connect :: "input_env \<Rightarrow> int \<Rightarrow> string \<Rightarrow> string \<Rightarrow> user_info \<Rightarrow> bot \<Rightarrow> bot" where
  "connect env chat email password info b =
     (case probe env of
        ProbeRaises err \<Rightarrow>
          (send chat ConnectionFailed b)
            \<lparr>bot_log := bot_log b @ [LogError (''Gmail connection failed: '' @ err)]\<rparr>
      | ProbeOK \<Rightarrow>
          (case save_user env chat email password info b of
             (b1, False) \<Rightarrow> send chat ErrorSavingCredentials b1
           | (b1, True) \<Rightarrow>
               (case start_monitoring_for_user chat b1 of
                  (b2, False) \<Rightarrow> send chat ErrorStartingMonitoring b2
                | (b2, True) \<Rightarrow> send chat (ConnectedOK email) b2)))"

definition clear_temporary :: "int \<Rightarrow> bot \<Rightarrow> bot" where
  "clear_temporary chat b =
     b\<lparr>waiting_states := (waiting_states b)(chat := None),
       temp_credentials := (temp_credentials b)(chat := None)\<rparr>"

definition handle_user_input :: "input_env \<Rightarrow> int \<Rightarrow> string \<Rightarrow> user_info \<Rightarrow> bot \<Rightarrow> bot" where
  "handle_user_input env chat input info b =
     (case waiting_states b chat of
        None \<Rightarrow> b
      | Some AwaitEmail \<Rightarrow>
          if CHR ''@'' \<notin> set input \<or> CHR ''.'' \<notin> set input
          then send chat InvalidEmail b
          else send chat (EmailReceived (strip (tables env) input))
                 (b\<lparr>temp_credentials := (temp_credentials b)(chat \<mapsto> strip (tables env) input),
                    waiting_states := (waiting_states b)(chat \<mapsto> AwaitPassword)\<rparr>)
      | Some AwaitPassword \<Rightarrow>
          (case temp_credentials b chat of
             None \<Rightarrow> send chat StartOver b
           | Some email \<Rightarrow>
               clear_temporary chat
                 (connect env chat email (strip (tables env) input) info (send chat TestingConnection b))))"

text \<open>A bot nobody has talked to yet, and an example environment.\<close>

definition new_bot :: bot where
  "new_bot =
     \<lparr>users = Map.empty, waiting_states = Map.empty, temp_credentials = Map.empty,
      user_stats = Map.empty, gmail_locks = {}, monitoring_threads = {},
      db_users = Map.empty, sent = [], bot_log = []\<rparr>"

definition env_login_fails :: input_env where
  "env_login_fails =
     \<lparr>tables = ascii, probe = ProbeRaises ''AUTHENTICATIONFAILED'', save_fails = False,
      digest = (\<lambda>p c. ''sha256''), clock = 0\<rparr>"

definition nobody :: user_info where
  "nobody = \<lparr>username = [], first_name = []\<rparr>"

section \<open>Properties of the extraction engine\<close>

lemma first_valid_valid: "first_valid cs ms = Some c \<Longrightarrow> valid_code cs c"
  by (induction ms) (auto split: if_splits)

lemma first_valid_mem: "first_valid cs ms = Some c \<Longrightarrow> c \<in> set ms"
  by (induction ms) (auto split: if_splits)

lemma extract_loop_valid: "extract_loop cs ps t = Some c \<Longrightarrow> valid_code cs c"
  by (induction ps) (auto split: option.splits dest: first_valid_valid)

lemma extract_loop_mem:
  "extract_loop cs ps t = Some c \<Longrightarrow> \<exists>p\<in>set ps. c \<in> set (findall cs p t)"
  by (induction ps) (auto split: option.splits dest: first_valid_mem)

text \<open>
  The outer loop returns the code \<open>c\<close> exactly when some pattern, at position \<open>k\<close> of
  the list, has \<open>c\<close> as its first acceptable match and no pattern before it has any.
\<close>

lemma extract_loop_iff:
  "extract_loop cs ps t = Some c \<longleftrightarrow>
     (\<exists>k<length ps. (\<forall>j<k. first_valid cs (findall cs (ps ! j) t) = None) \<and>
        first_valid cs (findall cs (ps ! k) t) = Some c)"
proof (induction ps)
  case Nil
  then show ?case by simp
next
  case (Cons p ps)
  show ?case
  proof (cases "first_valid cs (findall cs p t)")
    case None
    have "(\<exists>k<length (p # ps). (\<forall>j<k. first_valid cs (findall cs ((p # ps) ! j) t) = None) \<and>
        first_valid cs (findall cs ((p # ps) ! k) t) = Some c) \<longleftrightarrow>
      (\<exists>k<length ps. (\<forall>j<k. first_valid cs (findall cs (ps ! j) t) = None) \<and>
        first_valid cs (findall cs (ps ! k) t) = Some c)" (is "?L \<longleftrightarrow> ?R")
    proof
      assume ?L
      then obtain k where k: "k < length (p # ps)"
        "\<forall>j<k. first_valid cs (findall cs ((p # ps) ! j) t) = None"
        "first_valid cs (findall cs ((p # ps) ! k) t) = Some c" by blast
      from k(3) None obtain k' where k': "k = Suc k'" by (cases k) auto
      have "\<forall>j<k'. first_valid cs (findall cs (ps ! j) t) = None"
      proof (intro allI impI)
        fix j assume "j < k'"
        then have "Suc j < k" using k' by simp
        with k(2) have "first_valid cs (findall cs ((p # ps) ! Suc j) t) = None" by blast
        then show "first_valid cs (findall cs (ps ! j) t) = None" by simp
      qed
      with k k' show ?R by auto
    next
      assume ?R
      then obtain k where k: "k < length ps"
        "\<forall>j<k. first_valid cs (findall cs (ps ! j) t) = None"
        "first_valid cs (findall cs (ps ! k) t) = Some c" by blast
      have "\<forall>j<Suc k. first_valid cs (findall cs ((p # ps) ! j) t) = None"
      proof (intro allI impI)
        fix j assume "j < Suc k"
        then show "first_valid cs (findall cs ((p # ps) ! j) t) = None"
          using None k(2) by (cases j) auto
      qed
      moreover have "Suc k < length (p # ps)" using k(1) by simp
      moreover have "first_valid cs (findall cs ((p # ps) ! Suc k) t) = Some c" using k(3) by simp
      ultimately show ?L by blast
    qed
    with None Cons show ?thesis by simp
  next
    case (Some d)
    have "(\<exists>k<length (p # ps). (\<forall>j<k. first_valid cs (findall cs ((p # ps) ! j) t) = None) \<and>
        first_valid cs (findall cs ((p # ps) ! k) t) = Some c) \<longleftrightarrow> d = c" (is "?L \<longleftrightarrow> _")
    proof
      assume ?L
      then obtain k where k: "k < length (p # ps)"
        "\<forall>j<k. first_valid cs (findall cs ((p # ps) ! j) t) = None"
        "first_valid cs (findall cs ((p # ps) ! k) t) = Some c" by blast
      have "k = 0"
      proof (rule ccontr)
        assume "k \<noteq> 0"
        then have "0 < k" by simp
        with k(2) have "first_valid cs (findall cs ((p # ps) ! 0) t) = None" by blast
        with Some show False by simp
      qed
      with k(3) Some show "d = c" by simp
    next
      assume "d = c"
      with Some have "first_valid cs (findall cs ((p # ps) ! 0) t) = Some c" by simp
      then show ?L by force
    qed
    with Some show ?thesis by simp
  qed
qed

subsection \<open>The matcher\<close>

lemma first_down_below: "m < lo \<Longrightarrow> first_down f lo m = None"
  by (cases m) auto

lemma first_down_exact: "first_down f k k = f k"
  by (cases k) (auto simp: first_down_below split: option.splits)

lemma takeWhile_length_ge:
  "k \<le> length (takeWhile P s) \<longleftrightarrow> k \<le> length s \<and> list_all P (take k s)"
proof (induction s arbitrary: k)
  case Nil
  then show ?case by simp
next
  case (Cons c s)
  then show ?case by (cases k) auto
qed

lemma coherent_word: "digits_coherent cs \<Longrightarrow> cs_digit cs c \<Longrightarrow> cs_word cs c"
  by (simp add: digits_coherent_def)

lemma coherent_isdigit: "digits_coherent cs \<Longrightarrow> cs_digit cs c \<Longrightarrow> cs_isdigit cs c"
  by (simp add: digits_coherent_def)

lemma next_char_drop: "next_char (drop m t) = (if m < length t then Some (t ! m) else None)"
  by (auto simp: next_char_def split: list.splits simp: hd_drop_conv_nth drop_eq_Nil dest: arg_cong[where f=hd])

text \<open>
  Where the pattern \<open>\b(\d{k})\b\<close> matches: at \<open>k\<close> digits with no word character
  before and none after them.
\<close>

lemma match_bare:
  assumes "0 < k" and coh: "digits_coherent cs"
  shows "match_here cs (bare k) prev s [] =
     (if \<not> word_opt cs prev \<and> k \<le> length s \<and> list_all (cs_digit cs) (take k s) \<and>
         \<not> word_opt cs (next_char (drop k s))
      then Some (take k s, k) else None)"
proof (cases "k \<le> length (takeWhile (cs_digit cs) s)")
  case False
  then have "min k (length (takeWhile (cs_digit cs) s)) < k" by simp
  then have "first_down f k (min k (length (takeWhile (cs_digit cs) s))) = None"
    for f :: "nat \<Rightarrow> ('a list \<times> nat) option"
    by (rule first_down_below)
  moreover from False have "\<not> (k \<le> length s \<and> list_all (cs_digit cs) (take k s))"
    by (simp add: takeWhile_length_ge)
  ultimately show ?thesis by (auto simp: bare_def)
next
  case True
  then have m: "min k (length (takeWhile (cs_digit cs) s)) = k" by simp
  from True have ks: "k \<le> length s" and dig: "list_all (cs_digit cs) (take k s)"
    by (simp_all add: takeWhile_length_ge)
  from assms ks obtain c rest where s: "s = c # rest" by (cases s) auto
  with dig assms have "cs_digit cs c" by (cases k) auto
  then have w0: "word_opt cs (next_char s)"
    by (simp add: s next_char_def word_opt_def coherent_word [OF coh])
  have "cs_digit cs (s ! (k - 1))"
  proof -
    have "k - 1 < length (take k s)" using assms ks by simp
    moreover have "\<forall>x\<in>set (take k s). cs_digit cs x" using dig by (simp add: list_all_iff)
    ultimately have "cs_digit cs (take k s ! (k - 1))" using nth_mem by blast
    then show ?thesis using assms by simp
  qed
  then have w1: "word_opt cs (prev_after prev s k)"
    using assms by (simp add: prev_after_def word_opt_def coherent_word [OF coh])
  show ?thesis
    using ks dig w0 w1
    by (simp add: bare_def m first_down_exact boundary_def)
qed

subsection \<open>Every candidate is a run of four to eight digits\<close>

lemma first_down_Some:
  "first_down f lo m = Some r \<Longrightarrow> \<exists>k. lo \<le> k \<and> k \<le> m \<and> f k = Some r"
proof (induction m)
  case 0
  then show ?case by (auto split: if_splits)
next
  case (Suc m)
  show ?case
  proof (cases "f (Suc m)")
    case None
    with Suc.prems have "first_down f lo m = Some r" by (simp split: if_splits)
    with Suc.IH obtain k where "lo \<le> k" "k \<le> m" "f k = Some r" by blast
    then show ?thesis by (intro exI [of _ k]) simp
  next
    case (Some a)
    with Suc.prems have "\<not> Suc m < lo" and "a = r" by (simp_all split: if_splits)
    with Some show ?thesis by (intro exI [of _ "Suc m"]) simp
  qed
qed

lemma match_wordb_last:
  "match_here cs [WordB] prev s g = Some (g', n) \<Longrightarrow> g' = g"
  by (simp split: if_splits)

lemma match_group_wordb:
  assumes "match_here cs [Group lo hi, WordB] prev s g = Some (g', n)"
  shows "\<exists>k. lo \<le> k \<and> k \<le> hi \<and> k \<le> length (takeWhile (cs_digit cs) s) \<and> g' = take k s"
proof -
  from assms have "first_down
      (\<lambda>k. map_option (\<lambda>(g', n). (g', k + n))
             (match_here cs [WordB] (prev_after prev s k) (drop k s) (take k s)))
      lo (min hi (length (takeWhile (cs_digit cs) s))) = Some (g', n)"
    by (simp only: match_here.simps)
  from first_down_Some [OF this]
  obtain k where k: "lo \<le> k" "k \<le> min hi (length (takeWhile (cs_digit cs) s))"
    and m: "map_option (\<lambda>(g', n). (g', k + n))
           (match_here cs [WordB] (prev_after prev s k) (drop k s) (take k s)) = Some (g', n)"
    by blast
  from m obtain n' where
    "match_here cs [WordB] (prev_after prev s k) (drop k s) (take k s) = Some (g', n')"
    by (auto simp del: match_here.simps)
  then have "g' = take k s" by (rule match_wordb_last)
  with k show ?thesis by auto
qed

lemma match_group_last:
  assumes "match_here cs [Group lo hi] prev s g = Some (g', n)"
  shows "\<exists>k. lo \<le> k \<and> k \<le> hi \<and> k \<le> length (takeWhile (cs_digit cs) s) \<and> g' = take k s"
proof -
  from assms have "first_down
      (\<lambda>k. map_option (\<lambda>(g', n). (g', k + n))
             (match_here cs [] (prev_after prev s k) (drop k s) (take k s)))
      lo (min hi (length (takeWhile (cs_digit cs) s))) = Some (g', n)"
    by (simp only: match_here.simps)
  from first_down_Some [OF this]
  obtain k where k: "lo \<le> k" "k \<le> min hi (length (takeWhile (cs_digit cs) s))"
    and m: "map_option (\<lambda>(g', n). (g', k + n))
           (match_here cs [] (prev_after prev s k) (drop k s) (take k s)) = Some (g', n)"
    by blast
  from m have "g' = take k s" by auto
  with k show ?thesis by auto
qed

lemma match_star_group:
  assumes "match_here cs [Star c, Group lo hi] prev s g = Some (g', n)"
  shows "\<exists>j k. lo \<le> k \<and> k \<le> hi \<and> k \<le> length (takeWhile (cs_digit cs) (drop j s)) \<and>
           g' = take k (drop j s)"
proof -
  from assms have "first_down
      (\<lambda>k. map_option (\<lambda>(g', n). (g', k + n))
             (match_here cs [Group lo hi] (prev_after prev s k) (drop k s) g))
      0 (length (takeWhile (in_class cs c) s)) = Some (g', n)"
    by (simp only: match_here.simps)
  from first_down_Some [OF this]
  obtain j where
    "map_option (\<lambda>(g', n). (g', j + n))
       (match_here cs [Group lo hi] (prev_after prev s j) (drop j s) g) = Some (g', n)"
    by blast
  then obtain n' where
    "match_here cs [Group lo hi] (prev_after prev s j) (drop j s) g = Some (g', n')"
    by (auto simp del: match_here.simps)
  from match_group_last [OF this] show ?thesis by blast
qed

lemma digits_prefix_run:
  assumes "4 \<le> k" and "k \<le> 8" and "k \<le> length (takeWhile (cs_digit cs) s)"
  shows "digit_run cs (take k s)"
proof -
  from assms(3) have "k \<le> length s" and "list_all (cs_digit cs) (take k s)"
    by (simp_all add: takeWhile_length_ge)
  with assms(1,2) show ?thesis
    by (auto simp: digit_run_def)
qed

lemma match_bare_run:
  assumes "4 \<le> k" and "k \<le> 8" and "match_here cs (bare k) prev s [] = Some (g, n)"
  shows "digit_run cs g"
proof -
  have "match_here cs (bare k) prev s [] =
      (if boundary cs prev s then match_here cs [Group k k, WordB] prev s [] else None)"
    unfolding bare_def by (rule match_here.simps(3))
  with assms(3) have "match_here cs [Group k k, WordB] prev s [] = Some (g, n)"
    by (simp del: match_here.simps split: if_splits)
  from match_group_wordb [OF this] obtain j where "k \<le> j" "j \<le> k"
    "j \<le> length (takeWhile (cs_digit cs) s)" "g = take j s"
    by blast
  with assms(1,2) show ?thesis
    by (simp only: digits_prefix_run)
qed

lemma match_keyword_run:
  assumes "match_here cs (keyword w) prev s [] = Some (g, n)"
  shows "digit_run cs g"
proof -
  have "match_here cs (keyword w) prev s [] =
      (if length w \<le> length s \<and> list_all2 (cs_ci cs) w (take (length w) s)
       then map_option (\<lambda>(g', n). (g', length w + n))
              (match_here cs [Star Sep, Group 4 8] (prev_after prev s (length w))
                 (drop (length w) s) [])
       else None)"
    unfolding keyword_def by (rule match_here.simps(2))
  with assms have "map_option (\<lambda>(g', n). (g', length w + n))
      (match_here cs [Star Sep, Group 4 8] (prev_after prev s (length w)) (drop (length w) s) []) =
      Some (g, n)"
    by (simp del: match_here.simps split: if_splits)
  then obtain n' where
    "match_here cs [Star Sep, Group 4 8] (prev_after prev s (length w)) (drop (length w) s) [] =
       Some (g, n')"
    by (auto simp del: match_here.simps)
  from match_star_group [OF this] obtain j k where "4 \<le> k" "k \<le> 8"
    "k \<le> length (takeWhile (cs_digit cs) (drop j (drop (length w) s)))"
    "g = take k (drop j (drop (length w) s))"
    by blast
  then show ?thesis
    by (simp only: digits_prefix_run)
qed

lemma findall_from_all:
  assumes "\<And>prev s g n. match_here cs p prev s [] = Some (g, n) \<Longrightarrow> Q g"
  shows "list_all Q (findall_from cs p prev s skip)"
proof (induction s arbitrary: prev skip)
  case Nil
  then show ?case by simp
next
  case (Cons c rest)
  show ?case
  proof (cases "0 < skip")
    case True
    then show ?thesis using Cons.IH by simp
  next
    case False
    show ?thesis
    proof (cases "match_here cs p prev (c # rest) []")
      case None
      with False show ?thesis using Cons.IH by simp
    next
      case (Some r)
      then have "Q (fst r)" using assms [of prev "c # rest" "fst r" "snd r"] by simp
      with False Some show ?thesis using Cons.IH by (simp add: case_prod_unfold)
    qed
  qed
qed

lemma candidates_digit_runs: "list_all (\<lambda>p. list_all (digit_run cs) (findall cs p t)) patterns"
proof -
  have b: "list_all (digit_run cs) (findall cs (bare k) t)" if "4 \<le> k" "k \<le> 8" for k
  proof -
    have "list_all (digit_run cs) (findall_from cs (bare k) None t 0)"
      by (rule findall_from_all [where Q = "digit_run cs"]) (rule match_bare_run [OF that])
    then show ?thesis by (simp only: findall_def)
  qed
  have k: "list_all (digit_run cs) (findall cs (keyword w) t)" for w
  proof -
    have "list_all (digit_run cs) (findall_from cs (keyword w) None t 0)"
      by (rule findall_from_all [where Q = "digit_run cs"]) (rule match_keyword_run)
    then show ?thesis by (simp only: findall_def)
  qed
  show ?thesis
    unfolding patterns_def by (simp add: b k)
qed

text \<open>
  With the tables of a Python runtime every such run passes the check of the inner
  loop, so the check never rejects a candidate.
\<close>

lemma digit_run_valid:
  assumes "digits_coherent cs" and "digit_run cs g"
  shows "valid_code cs g"
proof -
  from assms(2) have l: "4 \<le> length g" "length g \<le> 8" and d: "list_all (cs_digit cs) g"
    by (simp_all add: digit_run_def)
  from d have "list_all (cs_isdigit cs) g"
    by (simp add: list_all_iff coherent_isdigit [OF assms(1)])
  moreover from l have "g \<noteq> []" by auto
  ultimately show ?thesis using l by (simp add: valid_code_def isdigit_def)
qed

lemma candidates_valid:
  assumes "digits_coherent cs"
  shows "list_all (\<lambda>p. list_all (valid_code cs) (findall cs p t)) patterns"
proof -
  have "valid_code cs g" if "digit_run cs g" for g
    using assms that by (rule digit_run_valid)
  with candidates_digit_runs [of cs t] show ?thesis
    unfolding list_all_iff by blast
qed

lemma extract_otp_digit_run:
  assumes "extract_otp cs t = Some c"
  shows "digit_run cs c"
proof (cases t)
  case None
  with assms show ?thesis by simp
next
  case (Some str)
  with assms have "extract_loop cs patterns str = Some c" by (simp split: if_splits)
  then obtain p where "p \<in> set patterns" "c \<in> set (findall cs p str)"
    using extract_loop_mem by blast
  with candidates_digit_runs [of cs str] show ?thesis
    by (simp add: list_all_iff)
qed

subsection \<open>Matching without regard to case\<close>

lemma cv_digit: "case_variants cs c d \<Longrightarrow> cs_digit cs c = cs_digit cs d"
  by (auto simp: case_variants_def)

lemma cv_digit_eq: "case_variants cs c d \<Longrightarrow> cs_digit cs c \<Longrightarrow> c = d"
  by (auto simp: case_variants_def)

lemma cv_word: "case_variants cs c d \<Longrightarrow> cs_word cs c = cs_word cs d"
  by (auto simp: case_variants_def)

lemma cv_sep: "case_variants cs c d \<Longrightarrow> is_sep cs c = is_sep cs d"
  by (auto simp: case_variants_def)

lemma cv_ci: "case_variants cs c d \<Longrightarrow> cs_ci cs p c = cs_ci cs p d"
  by (auto simp: case_variants_def)

lemma cv_in_class: "case_variants cs c d \<Longrightarrow> in_class cs k c = in_class cs k d"
  by (cases k) (simp_all add: cv_digit cv_sep)

lemma cv_literal:
  assumes "list_all2 (case_variants cs) s s'"
  shows "list_all2 (cs_ci cs) w s = list_all2 (cs_ci cs) w s'"
  using assms
proof (induction arbitrary: w rule: list_all2_induct)
  case Nil
  then show ?case by simp
next
  case (Cons c s d s')
  show ?case
  proof (cases w)
    case Nil
    then show ?thesis by simp
  next
    case (Cons p w')
    with Cons.IH [of w'] cv_ci [OF Cons.hyps(1), of p] show ?thesis by simp
  qed
qed

lemma cv_takeWhile:
  assumes "list_all2 (case_variants cs) s s'"
    and "\<And>c d. case_variants cs c d \<Longrightarrow> P c = P d"
  shows "length (takeWhile P s) = length (takeWhile P s')"
  using assms(1)
proof (induction rule: list_all2_induct)
  case Nil
  then show ?case by simp
next
  case (Cons c s d s')
  then show ?case using assms(2) [of c d] by simp
qed

lemma cv_take_digits:
  assumes "list_all2 (case_variants cs) s s'"
  shows "k \<le> length (takeWhile (cs_digit cs) s) \<Longrightarrow> take k s = take k s'"
  using assms
proof (induction arbitrary: k rule: list_all2_induct)
  case Nil
  then show ?case by simp
next
  case (Cons c s d s')
  show ?case
  proof (cases k)
    case 0
    then show ?thesis by simp
  next
    case (Suc j)
    with Cons.prems have dc: "cs_digit cs c" and j: "j \<le> length (takeWhile (cs_digit cs) s)"
      by (simp_all split: if_splits)
    from Cons.hyps(1) dc have "c = d" by (rule cv_digit_eq)
    with Cons.IH [OF j] Suc show ?thesis by simp
  qed
qed

lemma first_down_cong:
  "(\<And>k. k \<le> m \<Longrightarrow> f k = f' k) \<Longrightarrow> first_down f lo m = first_down f' lo m"
proof (induction m)
  case 0
  then show ?case by simp
next
  case (Suc m)
  have "first_down f lo m = first_down f' lo m"
    by (rule Suc.IH) (simp add: Suc.prems)
  moreover have "f (Suc m) = f' (Suc m)"
    by (simp add: Suc.prems)
  ultimately show ?case by (simp cong: option.case_cong)
qed

lemma cv_prev_after:
  assumes "list_all2 (case_variants cs) s s'"
    and "rel_option (case_variants cs) prev prev'"
    and "n \<le> length s"
  shows "rel_option (case_variants cs) (prev_after prev s n) (prev_after prev' s' n)"
proof (cases n)
  case 0
  with assms(2) show ?thesis by (simp add: prev_after_def)
next
  case (Suc j)
  with assms(3) have "j < length s" by simp
  with assms(1) have "case_variants cs (s ! j) (s' ! j)" by (rule list_all2_nthD)
  with Suc show ?thesis by (simp add: prev_after_def)
qed

lemma cv_word_opt:
  "rel_option (case_variants cs) p p' \<Longrightarrow> word_opt cs p = word_opt cs p'"
  by (cases p; cases p') (auto simp: word_opt_def dest: cv_word)

lemma cv_next_char:
  "list_all2 (case_variants cs) s s' \<Longrightarrow>
     rel_option (case_variants cs) (next_char s) (next_char s')"
  by (cases s; cases s') (simp_all add: next_char_def)

lemma cv_boundary:
  assumes "list_all2 (case_variants cs) s s'"
    and "rel_option (case_variants cs) prev prev'"
  shows "boundary cs prev s = boundary cs prev' s'"
  using cv_word_opt [OF assms(2)] cv_word_opt [OF cv_next_char [OF assms(1)]]
  by (simp add: boundary_def)

lemma cv_match_here:
  assumes "list_all2 (case_variants cs) s s'"
    and "rel_option (case_variants cs) prev prev'"
  shows "match_here cs p prev s g = match_here cs p prev' s' g"
  using assms
proof (induction p arbitrary: prev prev' s s' g)
  case Nil
  then show ?case by simp
next
  case (Cons a p)
  note rel = Cons.prems(1) and pr = Cons.prems(2)
  from rel have len: "length s = length s'"
    by (rule list_all2_lengthD)
  have step: "match_here cs p (prev_after prev s k) (drop k s) h =
      match_here cs p (prev_after prev' s' k) (drop k s') h" if "k \<le> length s" for k h
    by (rule Cons.IH) (simp_all add: rel list_all2_dropI cv_prev_after [OF rel pr that])
  show ?case
  proof (cases a)
    case (Lit w)
    from rel have "list_all2 (case_variants cs) (take (length w) s) (take (length w) s')"
      by (rule list_all2_takeI)
    then have "list_all2 (cs_ci cs) w (take (length w) s) =
        list_all2 (cs_ci cs) w (take (length w) s')"
      by (rule cv_literal)
    then show ?thesis
      using Lit len step [of "length w" g] by simp
  next
    case WordB
    have "match_here cs p prev s g = match_here cs p prev' s' g"
      by (rule Cons.IH) (simp_all add: rel pr)
    then show ?thesis
      using WordB cv_boundary [OF rel pr] by simp
  next
    case (Star c)
    have l: "length (takeWhile (in_class cs c) s) = length (takeWhile (in_class cs c) s')"
      using rel by (rule cv_takeWhile) (rule cv_in_class)
    have "first_down
        (\<lambda>k. map_option (\<lambda>(g', n). (g', k + n))
               (match_here cs p (prev_after prev s k) (drop k s) g))
        0 (length (takeWhile (in_class cs c) s)) =
      first_down
        (\<lambda>k. map_option (\<lambda>(g', n). (g', k + n))
               (match_here cs p (prev_after prev' s' k) (drop k s') g))
        0 (length (takeWhile (in_class cs c) s))"
    proof (rule first_down_cong)
      fix k assume "k \<le> length (takeWhile (in_class cs c) s)"
      then have "k \<le> length s"
        using length_takeWhile_le [of "in_class cs c" s] by simp
      then show "map_option (\<lambda>(g', n). (g', k + n))
               (match_here cs p (prev_after prev s k) (drop k s) g) =
             map_option (\<lambda>(g', n). (g', k + n))
               (match_here cs p (prev_after prev' s' k) (drop k s') g)"
        by (simp only: step)
    qed
    then show ?thesis
      using Star l by simp
  next
    case (Group lo hi)
    have l: "length (takeWhile (cs_digit cs) s) = length (takeWhile (cs_digit cs) s')"
      using rel by (rule cv_takeWhile) (rule cv_digit)
    have "first_down
        (\<lambda>k. map_option (\<lambda>(g', n). (g', k + n))
               (match_here cs p (prev_after prev s k) (drop k s) (take k s)))
        lo (min hi (length (takeWhile (cs_digit cs) s))) =
      first_down
        (\<lambda>k. map_option (\<lambda>(g', n). (g', k + n))
               (match_here cs p (prev_after prev' s' k) (drop k s') (take k s')))
        lo (min hi (length (takeWhile (cs_digit cs) s)))"
    proof (rule first_down_cong)
      fix k assume "k \<le> min hi (length (takeWhile (cs_digit cs) s))"
      then have d: "k \<le> length (takeWhile (cs_digit cs) s)" by simp
      then have "k \<le> length s"
        using length_takeWhile_le [of "cs_digit cs" s] by simp
      moreover have "take k s = take k s'"
        using rel d by (rule cv_take_digits)
      ultimately show "map_option (\<lambda>(g', n). (g', k + n))
               (match_here cs p (prev_after prev s k) (drop k s) (take k s)) =
             map_option (\<lambda>(g', n). (g', k + n))
               (match_here cs p (prev_after prev' s' k) (drop k s') (take k s'))"
        by (simp only: step)
    qed
    then show ?thesis
      using Group l by simp
  qed
qed

lemma cv_findall_from:
  assumes "list_all2 (case_variants cs) s s'"
  shows "rel_option (case_variants cs) prev prev' \<Longrightarrow>
     findall_from cs p prev s skip = findall_from cs p prev' s' skip"
  using assms
proof (induction arbitrary: prev prev' skip rule: list_all2_induct)
  case Nil
  then show ?case by simp
next
  case (Cons c s d s')
  have rel: "list_all2 (case_variants cs) (c # s) (d # s')"
    using Cons.hyps by simp
  have m: "match_here cs p prev (c # s) [] = match_here cs p prev' (d # s') []"
    using rel Cons.prems by (rule cv_match_here)
  have r: "findall_from cs p (Some c) s k = findall_from cs p (Some d) s' k" for k
    by (rule Cons.IH) (simp add: Cons.hyps(1))
  show ?case
    by (simp add: m r split: option.splits)
qed

text \<open>
  Texts that differ at most in the case of their letters give the same result: the
  matching is case-insensitive.
\<close>

lemma extract_otp_ignores_case:
  assumes rel: "list_all2 (case_variants cs) t t'"
  shows "extract_otp cs (Some t) = extract_otp cs (Some t')"
proof -
  have f: "findall cs p t = findall cs p t'" for p
    unfolding findall_def using rel by (rule cv_findall_from) simp
  have "extract_loop cs ps t = extract_loop cs ps t'" for ps
    by (induction ps) (simp_all add: f cong: option.case_cong)
  moreover from rel have "t = [] \<longleftrightarrow> t' = []"
    by (cases t; cases t') simp_all
  ultimately show ?thesis by simp
qed

subsection \<open>Properties of the ASCII tables\<close>

lemma ascii_coherent: "digits_coherent ascii"
  by (simp add: digits_coherent_def ascii_def ascii_word_def)

text \<open>On ASCII texts, the upper-case and the lower-case form of a letter are case variants.\<close>

lemma ascii_lower_cases:
  "ascii_lower c = c \<or>
   (c \<in> set ''ABCDEFGHIJKLMNOPQRSTUVWXYZ'' \<and> ascii_lower c \<in> set ''abcdefghijklmnopqrstuvwxyz'')"
  by (simp add: ascii_lower_def)

lemma ascii_letter_classes:
  assumes "c \<in> set ''ABCDEFGHIJKLMNOPQRSTUVWXYZ'' \<or> c \<in> set ''abcdefghijklmnopqrstuvwxyz''"
  shows "\<not> ascii_digit c" and "\<not> is_sep ascii c" and "ascii_word c"
  using assms
  by (auto simp: ascii_digit_def is_sep_def ascii_def ascii_space_def ascii_word_def ascii_alpha_def)

lemma ascii_lower_idem: "ascii_lower (ascii_lower c) = ascii_lower c"
proof (cases "ascii_lower c = c")
  case True
  then show ?thesis by simp
next
  case False
  with ascii_lower_cases [of c] have "ascii_lower c \<in> set ''abcdefghijklmnopqrstuvwxyz''"
    by blast
  then show ?thesis by (auto simp: ascii_lower_def)
qed

lemma ascii_case_variants: "case_variants ascii c (ascii_lower c)"
proof (cases "ascii_lower c = c")
  case True
  then show ?thesis by (simp add: case_variants_def)
next
  case False
  with ascii_lower_cases [of c]
  have u: "c \<in> set ''ABCDEFGHIJKLMNOPQRSTUVWXYZ''"
    and l: "ascii_lower c \<in> set ''abcdefghijklmnopqrstuvwxyz''"
    by blast+
  from u have cu: "\<not> ascii_digit c" "\<not> is_sep ascii c" "ascii_word c"
    by (simp_all only: ascii_letter_classes simp_thms)
  from l have cl: "\<not> ascii_digit (ascii_lower c)" "\<not> is_sep ascii (ascii_lower c)"
    "ascii_word (ascii_lower c)"
    by (simp_all only: ascii_letter_classes simp_thms)
  have "cs_digit ascii = ascii_digit" "cs_word ascii = ascii_word"
    "cs_ci ascii = (\<lambda>p c. ascii_lower p = ascii_lower c)"
    by (simp_all add: ascii_def)
  with cu cl show ?thesis
    by (simp add: case_variants_def ascii_lower_idem)
qed

text \<open>On ASCII texts, two texts with the same lower-case form give the same result.\<close>

lemma extract_otp_ascii_ignores_case:
  assumes "map ascii_lower t = map ascii_lower t'"
  shows "extract_otp ascii (Some t) = extract_otp ascii (Some t')"
proof -
  have a: "list_all2 (case_variants ascii) s (map ascii_lower s)" for s
    by (induction s) (simp_all add: ascii_case_variants)
  from a [of t] have "extract_otp ascii (Some t) = extract_otp ascii (Some (map ascii_lower t))"
    by (rule extract_otp_ignores_case)
  moreover from a [of t']
  have "extract_otp ascii (Some t') = extract_otp ascii (Some (map ascii_lower t'))"
    by (rule extract_otp_ignores_case)
  ultimately show ?thesis using assms by simp
qed

lemma ascii_lower_variants: "list_all2 (case_variants ascii) s (map ascii_lower s)"
  by (induction s) (simp_all add: ascii_case_variants)

subsection \<open>Priority of the patterns\<close>

text \<open>
  Claim C1. The patterns are tried in the fixed order bare 6-digit, bare 4-digit, bare
  5-digit, bare 8-digit, then the keywords code, verification, otp, pin, token, confirm,
  authenticate, security, each followed by any number of separator characters and four
  to eight digits. For every text and whatever the character tables of the runtime
  are, the result is the code \<open>c\<close> exactly when \<open>c\<close> is the first acceptable candidate
  of some pattern and every pattern before it in the list has none: the first pattern
  with an acceptable candidate wins, whatever the later patterns match. Every candidate
  of every pattern is a run of four to eight characters that \<open>\d\<close> matches; with the
  tables of a Python runtime, where \<open>str.isdigit\<close> holds of these characters, every
  candidate is acceptable, so the result is the first candidate of the first pattern
  that matches at all. Matching is case-insensitive: texts that differ only in the case
  of letters give the same result.
\<close>

theorem extract_otp_priority_order:
  "patterns =
     [bare 6, bare 4, bare 5, bare 8,
      keyword ''code'', keyword ''verification'', keyword ''otp'', keyword ''pin'',
      keyword ''token'', keyword ''confirm'', keyword ''authenticate'',
      keyword ''security''] \<and>
   (extract_otp cs (Some t) = Some c \<longleftrightarrow>
      (\<exists>k<length patterns.
         (\<forall>j<k. first_valid cs (findall cs (patterns ! j) t) = None) \<and>
         first_valid cs (findall cs (patterns ! k) t) = Some c)) \<and>
   list_all (\<lambda>p. list_all (digit_run cs) (findall cs p t)) patterns \<and>
   (digits_coherent cs \<longrightarrow> list_all (\<lambda>p. list_all (valid_code cs) (findall cs p t)) patterns) \<and>
   (list_all2 (case_variants cs) t t' \<longrightarrow> extract_otp cs (Some t) = extract_otp cs (Some t'))"
proof -
  have "extract_loop cs patterns [] = None"
    by (simp add: patterns_def findall_def)
  then have "extract_otp cs (Some t) = extract_loop cs patterns t"
    by (cases "t = []") simp_all
  then have "extract_otp cs (Some t) = Some c \<longleftrightarrow>
      (\<exists>k<length patterns.
         (\<forall>j<k. first_valid cs (findall cs (patterns ! j) t) = None) \<and>
         first_valid cs (findall cs (patterns ! k) t) = Some c)"
    by (simp only: extract_loop_iff)
  moreover have "patterns =
     [bare 6, bare 4, bare 5, bare 8,
      keyword ''code'', keyword ''verification'', keyword ''otp'', keyword ''pin'',
      keyword ''token'', keyword ''confirm'', keyword ''authenticate'',
      keyword ''security'']"
    by (simp add: patterns_def)
  ultimately show ?thesis
    using candidates_digit_runs [of cs t] candidates_valid [of cs t]
      extract_otp_ignores_case [of cs t t'] by blast
qed

text \<open>
  In \<open>Order 2024 code: 987654321\<close> the bare 4-digit pattern, second in the list, finds
  \<open>2024\<close>; the keyword pattern for \<open>code\<close>, fifth in the list, would find
  \<open>98765432\<close>, and is never reached. In \<open>OTP:1234x\<close> no bare pattern matches and the
  keyword pattern for \<open>otp\<close> matches the upper-case keyword.
\<close>

theorem extract_otp_priority_order_witness:
  "extract_otp ascii (Some ''Order 2024 code: 987654321'') = Some ''2024'' \<and>
   first_valid ascii (findall ascii (keyword ''code'') ''Order 2024 code: 987654321'') =
     Some ''98765432'' \<and>
   list_all (\<lambda>p. list_all (valid_code ascii) (findall ascii p ''Order 2024 code: 987654321''))
     patterns \<and>
   extract_otp ascii (Some ''OTP:1234x'') = Some ''1234''"
proof -
  have a: "first_valid ascii (findall ascii (patterns ! 0) ''Order 2024 code: 987654321'') = None"
    by code_simp
  have b: "first_valid ascii (findall ascii (patterns ! 1) ''Order 2024 code: 987654321'') =
      Some ''2024''"
    by code_simp
  have c: "first_valid ascii (findall ascii (keyword ''code'') ''Order 2024 code: 987654321'') =
      Some ''98765432''"
    by code_simp
  have "1 < length patterns \<and>
      (\<forall>j<1. first_valid ascii (findall ascii (patterns ! j) ''Order 2024 code: 987654321'') = None) \<and>
      first_valid ascii (findall ascii (patterns ! 1) ''Order 2024 code: 987654321'') = Some ''2024''"
    using a b by (simp add: patterns_def)
  then have "\<exists>k<length patterns.
      (\<forall>j<k. first_valid ascii (findall ascii (patterns ! j) ''Order 2024 code: 987654321'') = None) \<and>
      first_valid ascii (findall ascii (patterns ! k) ''Order 2024 code: 987654321'') = Some ''2024''"
    by blast
  with extract_otp_priority_order [of ascii "''Order 2024 code: 987654321''" "''2024''"]
  have d: "extract_otp ascii (Some ''Order 2024 code: 987654321'') = Some ''2024''"
    and v: "list_all (\<lambda>p. list_all (valid_code ascii) (findall ascii p ''Order 2024 code: 987654321''))
     patterns"
    using ascii_coherent by blast+
  have "map ascii_lower ''OTP:1234x'' = ''otp:1234x''"
    by (simp add: ascii_lower_def)
  with ascii_lower_variants [of "''OTP:1234x''"]
  have e: "list_all2 (case_variants ascii) ''OTP:1234x'' ''otp:1234x''"
    by simp
  have f: "extract_otp ascii (Some ''otp:1234x'') = Some ''1234''"
    by code_simp
  from extract_otp_priority_order [of ascii "''OTP:1234x''" "''1234''" "''otp:1234x''"] e f
  have "extract_otp ascii (Some ''OTP:1234x'') = Some ''1234''"
    by simp
  with c d v show ?thesis by simp
qed

text \<open>
  Claim C7, as stated: for \<open>Your verification code: 48213\<close> the result is \<open>48213\<close> and
  it is selected by a keyword pattern, that is, the four bare patterns, which come
  first, yield no code. This fails: the bare patterns alone already yield a code. The
  text is ASCII, so the ASCII tables decide.
\<close>

theorem verification_code_not_via_keyword:
  "\<not> (extract_otp ascii (Some ''Your verification code: 48213'') = Some ''48213'' \<and>
      extract_loop ascii (take 4 patterns) ''Your verification code: 48213'' = None)"
proof -
  have "extract_loop ascii (take 4 patterns) ''Your verification code: 48213'' = Some ''48213''"
    by code_simp
  then show ?thesis by simp
qed

text \<open>
  Claim C7, amended: for \<open>Your verification code: 48213\<close> the result is \<open>48213\<close>,
  selected by the bare 5-digit pattern, the third of the list, after the bare 6-digit
  and the bare 4-digit pattern have found nothing.
\<close>

theorem verification_code_via_bare_5:
  "extract_otp ascii (Some ''Your verification code: 48213'') = Some ''48213'' \<and>
   take 3 patterns = [bare 6, bare 4, bare 5] \<and>
   first_valid ascii (findall ascii (bare 6) ''Your verification code: 48213'') = None \<and>
   first_valid ascii (findall ascii (bare 4) ''Your verification code: 48213'') = None \<and>
   first_valid ascii (findall ascii (bare 5) ''Your verification code: 48213'') = Some ''48213''"
proof -
  have "extract_otp ascii (Some ''Your verification code: 48213'') = Some ''48213''"
    by code_simp
  moreover have "take 3 patterns = [bare 6, bare 4, bare 5]"
    by (simp add: patterns_def)
  moreover have "first_valid ascii (findall ascii (bare 6) ''Your verification code: 48213'') = None"
    by code_simp
  moreover have "first_valid ascii (findall ascii (bare 4) ''Your verification code: 48213'') = None"
    by code_simp
  moreover have "first_valid ascii (findall ascii (bare 5) ''Your verification code: 48213'') =
      Some ''48213''"
    by code_simp
  ultimately show ?thesis by simp
qed

subsection \<open>The bare 6-digit pattern\<close>

lemma bare_here_iff:
  assumes "n \<le> length t"
  shows "(\<not> word_opt cs (prev_at t n) \<and> k \<le> length (drop n t) \<and>
          list_all (cs_digit cs) (take k (drop n t)) \<and>
          \<not> word_opt cs (next_char (drop k (drop n t)))) \<longleftrightarrow> bare_run_at cs t k n"
proof -
  have a: "\<not> word_opt cs (prev_at t n) \<longleftrightarrow> (n = 0 \<or> \<not> cs_word cs (t ! (n - 1)))"
    by (simp add: prev_at_def word_opt_def)
  have b: "k \<le> length (drop n t) \<longleftrightarrow> n + k \<le> length t"
    using assms by auto
  have c: "n + k \<le> length t \<Longrightarrow>
      \<not> word_opt cs (next_char (drop k (drop n t))) \<longleftrightarrow>
        (n + k = length t \<or> \<not> cs_word cs (t ! (n + k)))"
    by (auto simp: next_char_drop word_opt_def add.commute)
  show ?thesis
    unfolding bare_run_at_def using a b c by blast
qed

lemma findall_from_bare_first:
  assumes k: "0 < k" and coh: "digits_coherent cs" and run: "bare_run_at cs t k i"
  shows "n \<le> i \<Longrightarrow> (\<forall>j. n \<le> j \<and> j < i \<longrightarrow> \<not> bare_run_at cs t k j) \<Longrightarrow>
     \<exists>rest. findall_from cs (bare k) (prev_at t n) (drop n t) 0 = take k (drop i t) # rest"
proof (induction "i - n" arbitrary: n)
  case 0
  then have n: "n = i" by simp
  from run k have "i < length t" by (simp add: bare_run_at_def)
  then have d: "drop i t = t ! i # drop (Suc i) t" by (simp add: Cons_nth_drop_Suc)
  from run have "i \<le> length t" by (simp add: bare_run_at_def)
  from bare_here_iff [OF this, of cs k] run
  have "match_here cs (bare k) (prev_at t i) (drop i t) [] = Some (take k (drop i t), k)"
    by (simp add: match_bare [OF k coh])
  then have "match_here cs (bare k) (prev_at t i) (t ! i # drop (Suc i) t) [] =
      Some (take k (drop i t), k)"
    using d by simp
  then show ?case unfolding n by (subst d) simp
next
  case (Suc m)
  then have lt: "n < i" by simp
  from run have "i \<le> length t" by (simp add: bare_run_at_def)
  with lt have nl: "n < length t" by simp
  then have d: "drop n t = t ! n # drop (Suc n) t" by (simp add: Cons_nth_drop_Suc)
  from Suc.prems lt have "\<not> bare_run_at cs t k n" by simp
  with bare_here_iff [of n t cs k] nl
  have "match_here cs (bare k) (prev_at t n) (drop n t) [] = None"
    by (simp add: match_bare [OF k coh])
  then have none: "match_here cs (bare k) (prev_at t n) (t ! n # drop (Suc n) t) [] = None"
    using d by simp
  have p: "prev_at t (Suc n) = Some (t ! n)" by (simp add: prev_at_def)
  have "m = i - Suc n" using Suc.hyps(2) by simp
  moreover have "Suc n \<le> i" using lt by simp
  moreover have "\<forall>j. Suc n \<le> j \<and> j < i \<longrightarrow> \<not> bare_run_at cs t k j" using Suc.prems by simp
  ultimately obtain rest where
    "findall_from cs (bare k) (prev_at t (Suc n)) (drop (Suc n) t) 0 = take k (drop i t) # rest"
    using Suc.hyps(1) by blast
  then show ?case by (subst d) (simp add: none p)
qed

text \<open>
  Whenever a text has a bare 6-digit run, the result is the leftmost one, whatever the
  other patterns match.
\<close>

lemma extract_otp_leftmost_bare_6:
  assumes coh: "digits_coherent cs"
    and run: "bare_run_at cs t 6 i" and first: "\<forall>j<i. \<not> bare_run_at cs t 6 j"
  shows "extract_otp cs (Some t) = Some (take 6 (drop i t))"
proof -
  from findall_from_bare_first [of 6 cs t i 0] coh run first
  obtain rest where
    "findall_from cs (bare 6) (prev_at t 0) (drop 0 t) 0 = take 6 (drop i t) # rest"
    by auto
  then have f: "findall cs (bare 6) t = take 6 (drop i t) # rest"
    by (simp add: findall_def prev_at_def)
  from run have "digit_run cs (take 6 (drop i t))"
    by (auto simp: bare_run_at_def digit_run_def)
  with coh have "valid_code cs (take 6 (drop i t))"
    by (rule digit_run_valid)
  with f have "first_valid cs (findall cs (bare 6) t) = Some (take 6 (drop i t))" by simp
  moreover from run have "t \<noteq> []" by (auto simp: bare_run_at_def)
  ultimately show ?thesis by (simp add: patterns_def)
qed

lemma bare_run_at_bounded:
  "(\<forall>j. bare_run_at cs t k j \<longrightarrow> j = i) \<longleftrightarrow>
     list_all (\<lambda>j. bare_run_at cs t k j \<longrightarrow> j = i) [0..<Suc (length t)]"
proof
  assume "\<forall>j. bare_run_at cs t k j \<longrightarrow> j = i"
  then show "list_all (\<lambda>j. bare_run_at cs t k j \<longrightarrow> j = i) [0..<Suc (length t)]"
    by (simp add: list_all_iff)
next
  assume a: "list_all (\<lambda>j. bare_run_at cs t k j \<longrightarrow> j = i) [0..<Suc (length t)]"
  show "\<forall>j. bare_run_at cs t k j \<longrightarrow> j = i"
  proof (intro allI impI)
    fix j assume r: "bare_run_at cs t k j"
    then have "j < Suc (length t)" by (simp add: bare_run_at_def)
    then have "j \<in> set [0..<Suc (length t)]" by auto
    with a r show "j = i" unfolding list_all_iff by blast
  qed
qed

text \<open>
  Claim C8. If a text contains exactly one bare 6-digit run (at index \<open>i\<close>, and at no
  other index) and none of the keyword patterns matches it, the result is that run.
  This holds for every text and for the character tables of every Python runtime
  (\<open>digits_coherent\<close>): the digits and the word characters that delimit the run are the
  ones of \<open>\d\<close> and \<open>\w\<close>, so a run that follows an accented letter is not bare. By
  \<open>extract_otp_leftmost_bare_6\<close> the result is the leftmost bare 6-digit run whenever
  there is one, whatever the keyword patterns match.
\<close>

theorem extract_otp_single_bare_6:
  assumes "digits_coherent cs"
    and "bare_run_at cs t 6 i"
    and "\<forall>j. bare_run_at cs t 6 j \<longrightarrow> j = i"
    and "list_all (\<lambda>p. findall cs p t = []) (drop 4 patterns)"
  shows "extract_otp cs (Some t) = Some (take 6 (drop i t))"
proof -
  have "\<forall>j<i. \<not> bare_run_at cs t 6 j"
  proof (intro allI impI notI)
    fix j assume "j < i" and "bare_run_at cs t 6 j"
    with assms(3) show False by blast
  qed
  with assms(1,2) show ?thesis by (rule extract_otp_leftmost_bare_6)
qed

theorem extract_otp_single_bare_6_witness:
  "extract_otp ascii (Some ''Use 123456 to sign in'') = Some ''123456''"
proof -
  have a: "bare_run_at ascii ''Use 123456 to sign in'' 6 4" by code_simp
  have "list_all (\<lambda>j. bare_run_at ascii ''Use 123456 to sign in'' 6 j \<longrightarrow> j = 4)
          [0..<Suc (length ''Use 123456 to sign in'')]"
    by code_simp
  then have b: "\<forall>j. bare_run_at ascii ''Use 123456 to sign in'' 6 j \<longrightarrow> j = 4"
    by (simp only: bare_run_at_bounded)
  have c: "list_all (\<lambda>p. findall ascii p ''Use 123456 to sign in'' = []) (drop 4 patterns)"
    by code_simp
  from extract_otp_single_bare_6 [OF ascii_coherent a b c] show ?thesis by simp
qed

text \<open>
  A 6-digit run glued to a word character is not a bare run, and no pattern finds it.
\<close>

lemma extract_otp_glued_run: "extract_otp ascii (Some ''ref_123456'') = None"
  by code_simp

text \<open>
  The same for every runtime and every word character \<open>w\<close> that is not a digit, an
  accented letter for instance: in the text made of \<open>w\<close> and six digits the bare
  patterns find nothing.
\<close>

lemma bare_6_after_word_char:
  assumes coh: "digits_coherent cs" and w: "cs_word cs w" and nd: "\<not> cs_digit cs w"
    and ds: "list_all (cs_digit cs) ds" and l: "length ds = 6"
  shows "list_all (\<lambda>k. findall cs (bare k) (w # ds) = []) [6, 4, 5, 8]"
proof -
  have none: "match_here cs (bare k) prev s [] = None"
    if "0 < k" and "word_opt cs prev \<or> length (takeWhile (cs_digit cs) s) < k"
    for k prev s
  proof -
    from that(2) have "word_opt cs prev \<or> \<not> (k \<le> length s \<and> list_all (cs_digit cs) (take k s))"
      using takeWhile_length_ge [of k "cs_digit cs" s] by auto
    then show ?thesis
      by (auto simp: match_bare [OF that(1) coh])
  qed
  have tail: "findall_from cs (bare k) prev s 0 = []"
    if "0 < k" and "word_opt cs prev" and "list_all (cs_digit cs) s" for k prev s
    using that(2,3)
  proof (induction s arbitrary: prev)
    case Nil
    then show ?case by simp
  next
    case (Cons c s)
    from Cons.prems(2) have "cs_word cs c" by (simp add: coherent_word [OF coh])
    then have "word_opt cs (Some c)" by (simp add: word_opt_def)
    with Cons.IH [of "Some c"] Cons.prems(2) have "findall_from cs (bare k) (Some c) s 0 = []"
      by simp
    then show ?case
      by (simp add: none [OF that(1)] Cons.prems(1))
  qed
  have "findall cs (bare k) (w # ds) = []" if "0 < k" for k
  proof -
    have "length (takeWhile (cs_digit cs) (w # ds)) < k"
      using nd that by simp
    then have "match_here cs (bare k) None (w # ds) [] = None"
      by (simp add: none [OF that])
    moreover have "findall_from cs (bare k) (Some w) ds 0 = []"
      using that by (rule tail) (simp_all add: word_opt_def w ds)
    ultimately show ?thesis by (simp add: findall_def)
  qed
  then show ?thesis by simp
qed

subsection \<open>The shape of the result\<close>

text \<open>
  Whatever the runtime counts as a digit is returned as a code: six times the same
  digit character, ASCII or not.
\<close>

lemma extract_otp_six_digits:
  assumes "digits_coherent cs" and "cs_digit cs d"
  shows "extract_otp cs (Some (replicate 6 d)) = Some (replicate 6 d)"
proof -
  have "bare_run_at cs (replicate 6 d) 6 0"
    using assms(2) by (simp add: bare_run_at_def list_all_iff)
  with assms(1) have "extract_otp cs (Some (replicate 6 d)) = Some (take 6 (drop 0 (replicate 6 d)))"
    by (rule extract_otp_leftmost_bare_6) simp
  then show ?thesis by simp
qed

text \<open>
  Claim C10. For every argument, the absent value and the empty string included, and
  whatever the character tables of the runtime are, the result is either no code or a
  string of length four to eight that consists only of digits: \<open>str.isdigit\<close> holds of
  it, and each of its characters is one that \<open>\d\<close> matches. The function is total: no
  argument makes it fail, and the absent value and the empty string give no code.
\<close>

theorem extract_otp_result_shape:
  "extract_otp cs None = None \<and> extract_otp cs (Some []) = None \<and>
   (\<forall>t. case extract_otp cs t of
          None \<Rightarrow> True
        | Some c \<Rightarrow> 4 \<le> length c \<and> length c \<le> 8 \<and> isdigit cs c \<and>
            list_all (cs_isdigit cs) c \<and> list_all (cs_digit cs) c)"
proof -
  have "valid_code cs c \<and> digit_run cs c" if a: "extract_otp cs t = Some c" for t c
  proof
    show "valid_code cs c"
    proof (cases t)
      case None
      with a show ?thesis by simp
    next
      case (Some str)
      with a have "extract_loop cs patterns str = Some c" by (simp split: if_splits)
      then show ?thesis by (rule extract_loop_valid)
    qed
    from a show "digit_run cs c" by (rule extract_otp_digit_run)
  qed
  then show ?thesis
    by (auto simp: valid_code_def isdigit_def digit_run_def split: option.splits)
qed

theorem extract_otp_result_shape_witness:
  "extract_otp ascii (Some ''PIN-0042 ok'') = Some ''0042'' \<and> isdigit ascii ''0042'' \<and>
   list_all (cs_digit ascii) ''0042''"
proof -
  have "extract_otp ascii (Some ''PIN-0042 ok'') = Some ''0042''" by code_simp
  with extract_otp_result_shape [of ascii] show ?thesis
    by (auto split: option.splits dest: spec [of _ "Some ''PIN-0042 ok''"])
qed

section \<open>Properties of the dispatcher and the poller\<close>

lemma upt_3: "[0..<max_retries] = [0, 1, 2]"
  by (simp add: max_retries_def upt_rec)

lemma send_message_cases:
  "send_message tr =
     (if succeeds (tr 0) then \<lparr>result = (case tr 0 of Response c p \<Rightarrow> p | PostRaises \<Rightarrow> None), attempts = 1, slept = 0, send_log = send_log (send_message tr)\<rparr>
      else if succeeds (tr 1) then \<lparr>result = (case tr 1 of Response c p \<Rightarrow> p | PostRaises \<Rightarrow> None), attempts = 2, slept = 1, send_log = send_log (send_message tr)\<rparr>
      else if succeeds (tr 2) then \<lparr>result = (case tr 2 of Response c p \<Rightarrow> p | PostRaises \<Rightarrow> None), attempts = 3, slept = 2, send_log = send_log (send_message tr)\<rparr>
      else \<lparr>result = None, attempts = 3, slept = 2, send_log = send_log (send_message tr)\<rparr>)"
  unfolding send_message_def upt_3
  by (simp add: succeeds_def pause_def failed_attempt_def max_retries_def
      split: post_result.splits option.splits)

lemma db_logs_deliver: "db_logs (deliver tr n s) = db_logs s"
  by (simp add: deliver_def Let_def)

lemma cache_deliver: "cache (deliver tr n s) = cache s"
  by (simp add: deliver_def Let_def)

lemma outbox_deliver: "outbox (deliver tr n s) = outbox s @ [(n, result (send_message tr) \<noteq> None)]"
  by (simp add: deliver_def Let_def)

lemma db_logs_log_otp:
  "db_logs (log_otp f t row s) = (if committed f then db_logs s @ [row] else db_logs s)"
  by (simp add: log_otp_def Let_def)

lemma cache_log_otp: "cache (log_otp f t row s) = cache s"
  by (simp add: log_otp_def Let_def)

lemma outbox_log_otp: "outbox (log_otp f t row s) = outbox s"
  by (simp add: log_otp_def Let_def)

lemma stats_log_otp:
  "stats (log_otp f t row s) =
     (if f = NoFault
      then map_option (\<lambda>st. st\<lparr>total_otps := total_otps st + 1, last_otp_time := Some t\<rparr>) (stats s)
      else stats s)"
  by (simp add: log_otp_def Let_def)

lemma log_log_otp:
  "log (log_otp f t row s) =
     log s @ [if f = NoFault then LogInfo ''OTP logged'' else LogError ''Error logging OTP'']"
  by (simp add: log_otp_def Let_def)

lemma db_total_log_otp:
  "db_total (log_otp f t row s) =
     (if committed f then map_option (\<lambda>n. n + 1) (db_total s) else db_total s)"
  by (simp add: log_otp_def Let_def)

lemma process_candidate_otp:
  assumes "x \<notin> cache s" and "fetch e = Fetched m" and "find_otp (chars e) m = Some otp"
  shows "db_logs (fst (process_candidate order chat e x s)) =
           (if committed (fault e)
            then db_logs s @
              [\<lparr>r_chat = chat, r_sender_email = sender_email m, r_sender_name = sender_name m,
                r_code = otp, r_subject = subject m, r_ms = detection_ms e\<rparr>]
            else db_logs s)"
    and "outbox (fst (process_candidate order chat e x s)) =
           outbox s @
             [(\<lparr>n_sender = sender_name m, n_subject = subject m, n_code = otp\<rparr>,
               result (send_message (post e)) \<noteq> None)]"
  using assms
  by (simp_all add: process_candidate_def Let_def db_logs_log_otp db_logs_deliver
      outbox_log_otp outbox_deliver)

text \<open>
  Claim C4. Whatever the transport does, \<open>send_message\<close> makes between one and three
  attempts, with a pause of one second between two attempts and none after the last.
  An attempt that answers with a status other than 200, whose payload does not decode,
  or that raises, uses up one attempt; when all three fail the call returns \<open>None\<close>
  after three attempts, and the function is total, so nothing is raised. In the poll
  cycle the OTP event is written to \<open>otp_logs\<close> after the call whatever its result:
  the row is stored as soon as the database commits, also when no attempt succeeded
  and the notification is flagged undelivered.
\<close>

theorem send_message_bounded_retry:
  "1 \<le> attempts (send_message tr) \<and> attempts (send_message tr) \<le> 3 \<and>
   slept (send_message tr) = attempts (send_message tr) - 1 \<and>
   (result (send_message tr) = None \<longleftrightarrow>
      \<not> succeeds (tr 0) \<and> \<not> succeeds (tr 1) \<and> \<not> succeeds (tr 2)) \<and>
   (result (send_message tr) = None \<longrightarrow> attempts (send_message tr) = 3) \<and>
   (x \<notin> cache s \<and> fetch e = Fetched m \<and> find_otp (chars e) m = Some otp \<and> committed (fault e) \<longrightarrow>
      db_logs (fst (process_candidate order chat e x s)) =
        db_logs s @
          [\<lparr>r_chat = chat, r_sender_email = sender_email m, r_sender_name = sender_name m,
            r_code = otp, r_subject = subject m, r_ms = detection_ms e\<rparr>] \<and>
      outbox (fst (process_candidate order chat e x s)) =
        outbox s @
          [(\<lparr>n_sender = sender_name m, n_subject = subject m, n_code = otp\<rparr>,
            result (send_message (post e)) \<noteq> None)])"
proof -
  have a: "1 \<le> attempts (send_message tr) \<and> attempts (send_message tr) \<le> 3 \<and>
      slept (send_message tr) = attempts (send_message tr) - 1"
    by (subst (1 2 3 4) send_message_cases) simp
  have b: "result (send_message tr) = None \<longleftrightarrow>
      \<not> succeeds (tr 0) \<and> \<not> succeeds (tr 1) \<and> \<not> succeeds (tr 2)"
    by (subst send_message_cases)
      (auto simp: succeeds_def split: post_result.splits)
  have c: "result (send_message tr) = None \<longrightarrow> attempts (send_message tr) = 3"
    unfolding b by (subst send_message_cases) simp
  show ?thesis
    using a b c process_candidate_otp [of x s e m otp order chat] by simp
qed

theorem send_message_bounded_retry_witness:
  "result (send_message (post env_transport_down)) = None \<and>
   attempts (send_message (post env_transport_down)) = 3 \<and>
   slept (send_message (post env_transport_down)) = 2 \<and>
   db_logs (fst (process_candidate sorted_list_of_set 1 env_transport_down (7::nat) new_poller)) =
     [\<lparr>r_chat = 1, r_sender_email = ''noreply@shop.example'', r_sender_name = ''Shop'',
       r_code = ''482913'', r_subject = ''Security code: 482913'', r_ms = 350\<rparr>] \<and>
   outbox (fst (process_candidate sorted_list_of_set 1 env_transport_down (7::nat) new_poller)) =
     [(\<lparr>n_sender = ''Shop'', n_subject = ''Security code: 482913'', n_code = ''482913''\<rparr>,
       False)]"
proof -
  have f: "find_otp ascii shop_msg = Some ''482913''"
    by code_simp
  have n: "\<not> succeeds (post env_transport_down k)" for k
    by (simp add: succeeds_def env_transport_down_def env_ok_def)
  have c: "(7::nat) \<notin> cache new_poller" "db_logs (new_poller :: nat poller) = []"
    "outbox (new_poller :: nat poller) = []"
    by (simp_all add: new_poller_def)
  have e: "fetch env_transport_down = Fetched shop_msg" "committed (fault env_transport_down)"
    "detection_ms env_transport_down = 350" "chars env_transport_down = ascii"
    by (simp_all add: env_transport_down_def env_ok_def committed_def)
  from send_message_bounded_retry
    [of "post env_transport_down" "7::nat" new_poller env_transport_down shop_msg
        "''482913''" sorted_list_of_set 1]
    f n c e
  show ?thesis by (simp add: shop_msg_def)
qed

text \<open>
  Claim C9, as stated: when the write to the store fails, the counters in memory are
  advanced all the same. This fails: with the \<open>INSERT\<close> failing, the counters of a
  fresh user stay at zero.
\<close>

theorem log_otp_failed_write_keeps_counters:
  "\<not> (map_option total_otps
        (stats (log_otp InsertFails 10
           \<lparr>r_chat = 1, r_sender_email = ''noreply@shop.example'', r_sender_name = ''Shop'',
            r_code = ''482913'', r_subject = ''Security code: 482913'', r_ms = 350\<rparr>
           (new_poller :: nat poller))) = Some 1)"
  by (simp add: stats_log_otp new_poller_def)

text \<open>
  Claim C9, amended. On a failure of the store inside \<open>log_otp\<close> the error is logged and
  the counters in memory (total count and time of the last OTP) are left as they were:
  they are advanced only when every database step, the commit and the closing of the
  connection included, went through. A failure before the commit leaves the store
  unchanged as well, so memory and store agree; only a failure at closing the
  connection, after the commit, leaves the store one event ahead of memory.
\<close>

theorem log_otp_counters_follow_store:
  "(f \<noteq> NoFault \<longrightarrow>
      stats (log_otp f t row s) = stats s \<and>
      log (log_otp f t row s) = log s @ [LogError ''Error logging OTP'']) \<and>
   (f = NoFault \<longrightarrow>
      stats (log_otp f t row s) =
        map_option (\<lambda>st. st\<lparr>total_otps := total_otps st + 1, last_otp_time := Some t\<rparr>) (stats s) \<and>
      db_logs (log_otp f t row s) = db_logs s @ [row] \<and>
      db_total (log_otp f t row s) = map_option (\<lambda>n. n + 1) (db_total s)) \<and>
   (f \<in> {ConnectFails, InsertFails, UpdateFails, CommitFails} \<longrightarrow>
      db_logs (log_otp f t row s) = db_logs s \<and> db_total (log_otp f t row s) = db_total s) \<and>
   (f = CloseFails \<longrightarrow>
      db_logs (log_otp f t row s) = db_logs s @ [row] \<and>
      db_total (log_otp f t row s) = map_option (\<lambda>n. n + 1) (db_total s))"
proof (cases "f = NoFault")
  case True
  then show ?thesis
    by (simp add: stats_log_otp db_logs_log_otp db_total_log_otp committed_def)
next
  case False
  then have "stats (log_otp f t row s) = stats s"
    and "log (log_otp f t row s) = log s @ [LogError ''Error logging OTP'']"
    by (simp_all add: stats_log_otp log_log_otp)
  moreover have "db_logs (log_otp f t row s) = db_logs s \<and>
      db_total (log_otp f t row s) = db_total s"
    if "f \<in> {ConnectFails, InsertFails, UpdateFails, CommitFails}"
    using that by (auto simp: db_logs_log_otp db_total_log_otp committed_def)
  moreover have "db_logs (log_otp f t row s) = db_logs s @ [row] \<and>
      db_total (log_otp f t row s) = map_option (\<lambda>n. n + 1) (db_total s)"
    if "f = CloseFails"
    using that by (simp add: db_logs_log_otp db_total_log_otp committed_def)
  ultimately show ?thesis
    using False by blast
qed

theorem log_otp_counters_follow_store_witness:
  "stats (log_otp CommitFails 10
      \<lparr>r_chat = 1, r_sender_email = ''noreply@shop.example'', r_sender_name = ''Shop'',
       r_code = ''482913'', r_subject = ''Security code: 482913'', r_ms = 350\<rparr>
      (new_poller :: nat poller)) = Some \<lparr>total_otps = 0, last_otp_time = None\<rparr> \<and>
   db_logs (log_otp CommitFails 10
      \<lparr>r_chat = 1, r_sender_email = ''noreply@shop.example'', r_sender_name = ''Shop'',
       r_code = ''482913'', r_subject = ''Security code: 482913'', r_ms = 350\<rparr>
      (new_poller :: nat poller)) = [] \<and>
   log (log_otp CommitFails 10
      \<lparr>r_chat = 1, r_sender_email = ''noreply@shop.example'', r_sender_name = ''Shop'',
       r_code = ''482913'', r_subject = ''Security code: 482913'', r_ms = 350\<rparr>
      (new_poller :: nat poller)) = [LogError ''Error logging OTP'']"
  using log_otp_counters_follow_store
    [of CommitFails 10
      "\<lparr>r_chat = 1, r_sender_email = ''noreply@shop.example'', r_sender_name = ''Shop'',
       r_code = ''482913'', r_subject = ''Security code: 482913'', r_ms = 350\<rparr>"
      "new_poller :: nat poller"]
  by (simp add: new_poller_def)

subsection \<open>The dedup cache\<close>

lemma process_candidate_skip:
  "x \<in> cache s \<Longrightarrow> process_candidate order chat e x s = (s, Completed)"
  by (simp add: process_candidate_def)

lemma cache_process_candidate:
  "cache (fst (process_candidate order chat e x s)) =
     (if x \<in> cache s then cache s
      else if fetch e = FetchRaises then insert x (cache s)
      else evict order (insert x (cache s)))"
  by (simp add: process_candidate_def Let_def cache_log_otp cache_deliver
      split: fetch_result.splits option.splits)

lemma outbox_process_candidate:
  "length (outbox (fst (process_candidate order chat e x s))) =
     length (outbox s) + (if x \<notin> cache s \<and> notifies e then 1 else 0)"
  by (simp add: process_candidate_def Let_def notifies_def outbox_log_otp outbox_deliver
      split: fetch_result.splits option.splits)

lemma db_logs_process_candidate:
  "length (db_logs (fst (process_candidate order chat e x s))) =
     length (db_logs s) +
       (if x \<notin> cache s \<and> notifies e \<and> committed (fault e) then 1 else 0)"
  by (simp add: process_candidate_def Let_def notifies_def db_logs_log_otp db_logs_deliver
      split: fetch_result.splits option.splits)

lemma evict_small: "card c \<le> 100 \<Longrightarrow> evict order c = c"
  by (simp add: evict_def)

lemma process_candidate_raises:
  "x \<notin> cache s \<Longrightarrow> fetch e = FetchRaises \<Longrightarrow>
     process_candidate order chat e x s = (s\<lparr>cache := insert x (cache s)\<rparr>, Raised)"
  by (simp add: process_candidate_def)

text \<open>
  Claim C2, amended. A candidate whose identifier is in the dedup cache is skipped:
  nothing is fetched, sent or logged. Otherwise the identifier is put into the cache
  before the message is fetched, so that it is there even when the fetch raises. As
  long as the identifier stays in the cache (here: the cache holds fewer than 100
  identifiers, so that the clean-up does not run), presenting it again changes
  nothing, and the two presentations together add at most one notification and at most
  one OTP event.
\<close>

theorem dedup_at_most_once:
  assumes "finite (cache s)" and "card (cache s) < 100"
  shows "(x \<in> cache s \<longrightarrow> process_candidate order chat e x s = (s, Completed)) \<and>
    (x \<notin> cache s \<and> fetch e = FetchRaises \<longrightarrow>
       process_candidate order chat e x s = (s\<lparr>cache := insert x (cache s)\<rparr>, Raised)) \<and>
    x \<in> cache (fst (process_candidate order chat e x s)) \<and>
    process_candidate order chat e' x (fst (process_candidate order chat e x s)) =
      (fst (process_candidate order chat e x s), Completed) \<and>
    length (outbox (fst (process_candidate order chat e x s))) \<le> length (outbox s) + 1 \<and>
    length (db_logs (fst (process_candidate order chat e x s))) \<le> length (db_logs s) + 1"
proof -
  have "card (insert x (cache s)) \<le> 100"
    using assms by (simp add: card_insert_if)
  then have "evict order (insert x (cache s)) = insert x (cache s)"
    by (rule evict_small)
  then have in_cache: "x \<in> cache (fst (process_candidate order chat e x s))"
    by (simp add: cache_process_candidate)
  then have again: "process_candidate order chat e' x (fst (process_candidate order chat e x s)) =
      (fst (process_candidate order chat e x s), Completed)"
    by (rule process_candidate_skip)
  show ?thesis
    using in_cache again
    by (simp add: process_candidate_skip process_candidate_raises
        outbox_process_candidate db_logs_process_candidate)
qed

lemma notifies_env_ok: "notifies env_ok"
proof -
  have "find_otp ascii shop_msg = Some ''482913''" by code_simp
  then show ?thesis by (simp add: notifies_def env_ok_def)
qed

theorem dedup_at_most_once_witness:
  "process_candidate sorted_list_of_set 1 env_ok (7::nat)
     (fst (process_candidate sorted_list_of_set 1 env_ok 7 new_poller)) =
     (fst (process_candidate sorted_list_of_set 1 env_ok 7 new_poller), Completed) \<and>
   length (outbox (fst (process_candidate sorted_list_of_set 1 env_ok (7::nat) new_poller))) = 1 \<and>
   length (db_logs (fst (process_candidate sorted_list_of_set 1 env_ok (7::nat) new_poller))) = 1"
proof -
  have a: "finite (cache (new_poller :: nat poller))"
    and b: "card (cache (new_poller :: nat poller)) < 100"
    by (simp_all add: new_poller_def)
  have c: "(7::nat) \<notin> cache new_poller" "outbox (new_poller :: nat poller) = []"
    "db_logs (new_poller :: nat poller) = []" "committed (fault env_ok)"
    by (simp_all add: new_poller_def env_ok_def committed_def)
  from dedup_at_most_once [OF a b, of 7 sorted_list_of_set 1 env_ok env_ok] c notifies_env_ok
  show ?thesis
    by (simp add: outbox_process_candidate db_logs_process_candidate)
qed

lemma upt_minus_prefix: "{lo..<hi} - {lo..<mid} = {max lo mid..<hi}" for lo :: nat
  by auto

lemma evict_oldest_101: "evict sorted_list_of_set {1..<102::nat} = {51..<102}"
proof -
  have "take 50 (sorted_list_of_set {1..<102::nat}) = [1..<51]"
    by (simp add: sorted_list_of_set_range take_upt)
  then show ?thesis
    by (simp add: evict_def upt_minus_prefix)
qed

text \<open>
  Claim C2, as stated: the same identifier presented twice gives exactly one
  notification and exactly one OTP event. Two runs show otherwise. In the first the
  fetch raises at the first presentation; the identifier is in the cache from then on,
  the second presentation is skipped, and there is no notification and no event at
  all. In the second the cache holds the identifiers 2 to 100; identifier 1 is
  processed and notified, identifier 101 makes the cache exceed its capacity and the
  clean-up, here removing the 50 smallest identifiers, forgets identifier 1; presented
  again, identifier 1 is notified and logged a second time.
\<close>

theorem same_id_twice_not_exactly_once:
  "outbox (fst (process_candidate sorted_list_of_set 1 env_ok (7::nat)
      (fst (process_candidate sorted_list_of_set 1 env_fetch_raises 7 new_poller)))) = [] \<and>
   db_logs (fst (process_candidate sorted_list_of_set 1 env_ok (7::nat)
      (fst (process_candidate sorted_list_of_set 1 env_fetch_raises 7 new_poller)))) = [] \<and>
   length (outbox (fst (process_candidate sorted_list_of_set 1 env_ok 1
      (fst (process_candidate sorted_list_of_set 1 env_not_ok 101
         (fst (process_candidate sorted_list_of_set 1 env_ok 1 (poller_with 2 101)))))))) = 2 \<and>
   length (db_logs (fst (process_candidate sorted_list_of_set 1 env_ok 1
      (fst (process_candidate sorted_list_of_set 1 env_not_ok 101
         (fst (process_candidate sorted_list_of_set 1 env_ok 1 (poller_with 2 101)))))))) = 2"
proof -
  define r where "r = fst (process_candidate sorted_list_of_set 1 env_fetch_raises (7::nat) new_poller)"
  define s1 where "s1 = fst (process_candidate sorted_list_of_set 1 env_ok 1 (poller_with 2 101))"
  define s2 where "s2 = fst (process_candidate sorted_list_of_set 1 env_not_ok 101 s1)"
  define s3 where "s3 = fst (process_candidate sorted_list_of_set 1 env_ok 1 s2)"
  have r: "r = new_poller\<lparr>cache := {7}\<rparr>"
    unfolding r_def by (simp add: process_candidate_raises env_fetch_raises_def new_poller_def)
  have a: "fst (process_candidate sorted_list_of_set 1 env_ok 7 r) = new_poller\<lparr>cache := {7}\<rparr>"
    unfolding r by (simp add: process_candidate_skip)
  have i: "insert (Suc 0) {2..<101} = {Suc 0..<101}" "insert 101 {Suc 0..<101} = {Suc 0..<102}"
    by auto
  have c0: "cache (poller_with 2 101) = {2..<101}"
    by (simp add: poller_with_def)
  have c1: "cache s1 = {Suc 0..<101}"
    unfolding s1_def by (simp add: cache_process_candidate c0 env_ok_def i evict_small)
  have c2: "cache s2 = {51..<102}"
    unfolding s2_def using evict_oldest_101
    by (simp add: cache_process_candidate c1 env_not_ok_def env_ok_def i)
  have n: "\<not> notifies env_not_ok"
    by (simp add: notifies_def env_not_ok_def)
  have k: "committed (fault env_ok)"
    by (simp add: env_ok_def committed_def)
  have o0: "outbox (poller_with 2 101) = []" "db_logs (poller_with 2 101) = []"
    by (simp_all add: poller_with_def new_poller_def)
  have o1: "length (outbox s1) = 1" "length (db_logs s1) = 1"
    unfolding s1_def
    by (simp_all add: outbox_process_candidate db_logs_process_candidate notifies_env_ok c0 o0 k)
  have o2: "length (outbox s2) = 1" "length (db_logs s2) = 1"
    unfolding s2_def
    by (simp_all add: outbox_process_candidate db_logs_process_candidate n o1)
  have o3: "length (outbox s3) = 2" "length (db_logs s3) = 2"
    unfolding s3_def
    by (simp_all add: outbox_process_candidate db_logs_process_candidate notifies_env_ok c2 o2 k)
  show ?thesis
    using a o3 unfolding r_def s1_def s2_def s3_def by (simp add: new_poller_def)
qed

subsection \<open>Size of the cache and order of the clean-up\<close>

lemma completed_candidate_keeps_bound:
  assumes "finite (cache s)" and "card (cache s) \<le> 100"
    and "x \<notin> cache s \<longrightarrow>
           distinct (order (insert x (cache s))) \<and> set (order (insert x (cache s))) = insert x (cache s)"
    and "snd (process_candidate order chat e x s) = Completed"
  shows "card (cache (fst (process_candidate order chat e x s))) \<le> 100"
proof (cases "x \<in> cache s")
  case True
  with assms(2) show ?thesis by (simp add: cache_process_candidate)
next
  case False
  with assms(4) have nr: "fetch e \<noteq> FetchRaises"
    by (auto simp: process_candidate_def)
  let ?c = "insert x (cache s)"
  have fin: "finite ?c" using assms(1) by simp
  have card: "card ?c = card (cache s) + 1" using assms(1) False by simp
  from assms(3) False have d: "distinct (order ?c)" and st: "set (order ?c) = ?c" by simp_all
  have len: "length (order ?c) = card ?c"
    using d st distinct_card by fastforce
  show ?thesis
  proof (cases "100 < card ?c")
    case False
    then show ?thesis using \<open>x \<notin> cache s\<close> nr by (simp add: cache_process_candidate evict_def)
  next
    case True
    have sub: "set (take 50 (order ?c)) \<subseteq> ?c" using st set_take_subset by fastforce
    have "card (set (take 50 (order ?c))) = 50"
      using d len True card by (simp add: distinct_card)
    then have "card (?c - set (take 50 (order ?c))) = card ?c - 50"
      using fin sub by (simp add: card_Diff_subset)
    then show ?thesis
      using \<open>x \<notin> cache s\<close> nr True card assms(2)
      by (simp add: cache_process_candidate evict_def)
  qed
qed

lemma raised_candidate_skips_cleanup:
  assumes "finite (cache s)" and "x \<notin> cache s" and "fetch e = FetchRaises"
  shows "card (cache (fst (process_candidate order chat e x s))) = card (cache s) + 1"
  using assms by (simp add: cache_process_candidate)

text \<open>
  Claim C3 on the code. The cache holds the identifiers 1 to 100 and identifier 101 is
  processed; the set lists its elements with the largest identifiers first. The
  clean-up removes 50 identifiers in one batch and 51 remain; the identifier just
  processed is among the removed ones and the oldest identifier stays.
\<close>

theorem cleanup_follows_iteration_order:
  "card (cache (fst (process_candidate newest_first 1 env_ok 101 (poller_with 1 101)))) = 51 \<and>
   101 \<notin> cache (fst (process_candidate newest_first 1 env_ok 101 (poller_with 1 101))) \<and>
   1 \<in> cache (fst (process_candidate newest_first 1 env_ok 101 (poller_with 1 101)))"
proof -
  have i: "insert 101 {Suc 0..<101} = {Suc 0..<102}"
    by auto
  have "[1..<102] = [1..<52] @ [52..<102]"
    by (simp add: upt_add_eq_append [of 1 52 50, simplified])
  then have "rev [1..<102] = rev [52..<102] @ rev [1..<52]"
    by simp
  then have "take 50 (rev [1..<102]) = rev [52..<102]"
    by simp
  then have t: "take 50 (newest_first {1..<102}) = rev [52..<102]"
    by (simp only: newest_first_def sorted_list_of_set_range)
  have "100 < card {1..<102::nat}"
    by simp
  then have "evict newest_first {1..<102} = {1..<102} - set (rev [52..<102])"
    unfolding evict_def t by (simp only: if_True)
  also have "\<dots> = {1..<52}"
    by (simp only: set_rev set_upt) auto
  finally have "cache (fst (process_candidate newest_first 1 env_ok 101 (poller_with 1 101))) = {1..<52}"
    by (simp add: cache_process_candidate poller_with_def env_ok_def i)
  then show ?thesis by simp
qed

subsection \<open>Poll cycles\<close>

lemma run_candidates_all_cached:
  "set xs \<subseteq> cache s \<Longrightarrow> run_candidates order chat env xs s = (s, Completed)"
  by (induction xs) (simp_all add: process_candidate_skip)

lemma set_candidates: "set (candidates email_ids) \<subseteq> set email_ids"
  by (auto simp: candidates_def dest: in_set_dropD)

lemma length_candidates: "length (candidates email_ids) \<le> 5"
  by (simp add: candidates_def)

text \<open>
  A pass whose search returns only identifiers that are in the cache changes nothing
  but the stored message count.
\<close>

lemma poll_cycle_known_ids:
  assumes "login_ok ce" and "logout_ok ce" and "inbox_count ce = Some n"
    and "last_email_count s < n" and "unseen ce = Some email_ids"
    and "set email_ids \<subseteq> cache s"
  shows "poll_cycle order chat ce s = s\<lparr>last_email_count := n\<rparr>"
proof -
  from assms(6) set_candidates [of email_ids]
  have "set (candidates email_ids) \<subseteq> cache (s\<lparr>last_email_count := n\<rparr>)"
    by auto
  then have "run_candidates order chat (cand ce) (candidates email_ids)
      (s\<lparr>last_email_count := n\<rparr>) = (s\<lparr>last_email_count := n\<rparr>, Completed)"
    by (rule run_candidates_all_cached)
  with assms(1-5) show ?thesis
    by (simp add: poll_cycle_def scan_inbox_def)
qed

lemma finite_cache_process_candidate:
  "finite (cache s) \<Longrightarrow> finite (cache (fst (process_candidate order chat e x s)))"
  by (simp add: cache_process_candidate evict_def)

lemma run_candidates_keeps_bound:
  assumes "enumerates order"
  shows "finite (cache s) \<Longrightarrow> card (cache s) \<le> 100 \<Longrightarrow>
     snd (run_candidates order chat env xs s) = Completed \<Longrightarrow>
     finite (cache (fst (run_candidates order chat env xs s))) \<and>
     card (cache (fst (run_candidates order chat env xs s))) \<le> 100"
proof (induction xs arbitrary: s)
  case Nil
  then show ?case by simp
next
  case (Cons x xs)
  obtain s' out where p: "process_candidate order chat (env x) x s = (s', out)"
    by (cases "process_candidate order chat (env x) x s")
  show ?case
  proof (cases out)
    case Raised
    with p Cons.prems(3) show ?thesis by simp
  next
    case Completed
    have fin: "finite (cache s')"
      using finite_cache_process_candidate [OF Cons.prems(1), of order chat "env x" x] p by simp
    have "x \<notin> cache s \<longrightarrow>
        distinct (order (insert x (cache s))) \<and> set (order (insert x (cache s))) = insert x (cache s)"
      using assms Cons.prems(1) by (simp add: enumerates_def)
    from completed_candidate_keeps_bound
      [of s x order chat "env x", OF Cons.prems(1,2) this] p Completed
    have "card (cache s') \<le> 100" by simp
    with fin Cons.IH [of s'] Cons.prems(3) p Completed show ?thesis by simp
  qed
qed

text \<open>
  With any iteration order, a pass in which no candidate raises keeps a cache of at
  most 100 identifiers at most that large.
\<close>

lemma poll_cycle_keeps_bound:
  assumes "enumerates order" and "finite (cache s)" and "card (cache s) \<le> 100"
    and "snd (scan_inbox order chat ce s) = Completed"
  shows "card (cache (poll_cycle order chat ce s)) \<le> 100"
proof -
  have c: "cache (on_exception r) = cache r" for r :: "'a poller"
    by (simp add: on_exception_def)
  have "card (cache (fst (scan_inbox order chat ce s))) \<le> 100"
  proof (cases "\<exists>n ids. inbox_count ce = Some n \<and> last_email_count s < n \<and> unseen ce = Some ids")
    case True
    then obtain n ids where h: "inbox_count ce = Some n" "last_email_count s < n"
      "unseen ce = Some ids" by blast
    then have eq: "scan_inbox order chat ce s =
        run_candidates order chat (cand ce) (candidates ids) (s\<lparr>last_email_count := n\<rparr>)"
      by (simp add: scan_inbox_def)
    from run_candidates_keeps_bound [OF assms(1), of "s\<lparr>last_email_count := n\<rparr>" chat "cand ce" "candidates ids"]
      assms(2,3,4) eq
    show ?thesis by simp
  next
    case False
    then have "cache (fst (scan_inbox order chat ce s)) = cache s"
      by (auto simp: scan_inbox_def split: option.splits)
    with assms(3) show ?thesis by simp
  qed
  then show ?thesis
    by (auto simp: poll_cycle_def c assms(3) split: prod.splits outcome.splits)
qed

section \<open>Properties of the onboarding\<close>

lemma handle_user_input_idle:
  "waiting_states b chat = None \<Longrightarrow> handle_user_input env chat input info b = b"
  by (simp add: handle_user_input_def)

text \<open>
  Claim C6. In the state \<open>'email'\<close>, an input without \<open>@\<close> or without a dot is answered
  with the invalid-address prompt and nothing else changes: the state stays
  \<open>'email'\<close> and nothing is staged. An input with both is staged (stripped) as the
  address, the state becomes \<open>'password'\<close>, and the password prompt is sent.
\<close>

theorem address_input_step:
  assumes "waiting_states b chat = Some AwaitEmail"
  shows "(CHR ''@'' \<notin> set input \<or> CHR ''.'' \<notin> set input \<longrightarrow>
            handle_user_input env chat input info b = b\<lparr>sent := sent b @ [(chat, InvalidEmail)]\<rparr> \<and>
            waiting_states (handle_user_input env chat input info b) chat = Some AwaitEmail \<and>
            temp_credentials (handle_user_input env chat input info b) = temp_credentials b) \<and>
         (CHR ''@'' \<in> set input \<and> CHR ''.'' \<in> set input \<longrightarrow>
            handle_user_input env chat input info b =
              b\<lparr>temp_credentials := (temp_credentials b)(chat \<mapsto> strip (tables env) input),
                waiting_states := (waiting_states b)(chat \<mapsto> AwaitPassword),
                sent := sent b @ [(chat, EmailReceived (strip (tables env) input))]\<rparr> \<and>
            waiting_states (handle_user_input env chat input info b) chat = Some AwaitPassword \<and>
            temp_credentials (handle_user_input env chat input info b) chat = Some (strip (tables env) input))"
proof (cases "CHR ''@'' \<in> set input \<and> CHR ''.'' \<in> set input")
  case True
  with assms have "handle_user_input env chat input info b =
      send chat (EmailReceived (strip (tables env) input))
        (b\<lparr>temp_credentials := (temp_credentials b)(chat \<mapsto> strip (tables env) input),
           waiting_states := (waiting_states b)(chat \<mapsto> AwaitPassword)\<rparr>)"
    by (simp add: handle_user_input_def)
  with True show ?thesis
    by (simp add: send_def)
next
  case False
  with assms have "handle_user_input env chat input info b = send chat InvalidEmail b"
    by (auto simp: handle_user_input_def)
  with False assms show ?thesis
    by (auto simp: send_def)
qed

theorem address_input_step_witness:
  "handle_user_input env_login_fails 5 ''not an address'' nobody
      (new_bot\<lparr>waiting_states := [5 \<mapsto> AwaitEmail]\<rparr>) =
     new_bot\<lparr>waiting_states := [5 \<mapsto> AwaitEmail], sent := [(5, InvalidEmail)]\<rparr> \<and>
   handle_user_input env_login_fails 5 '' user@example.com '' nobody
      (new_bot\<lparr>waiting_states := [5 \<mapsto> AwaitEmail]\<rparr>) =
     new_bot\<lparr>temp_credentials := [5 \<mapsto> ''user@example.com''],
             waiting_states := [5 \<mapsto> AwaitPassword],
             sent := [(5, EmailReceived ''user@example.com'')]\<rparr>"
proof -
  have w: "waiting_states (new_bot\<lparr>waiting_states := [5 \<mapsto> AwaitEmail]\<rparr>) 5 = Some AwaitEmail"
    by simp
  have s: "strip (tables env_login_fails) '' user@example.com '' = ''user@example.com''"
    by (simp add: strip_def env_login_fails_def ascii_def ascii_space_def)
  from address_input_step [OF w, of "''not an address''" env_login_fails nobody]
    address_input_step [OF w, of "'' user@example.com ''" env_login_fails nobody] s
  show ?thesis by (simp add: new_bot_def)
qed

text \<open>
  Claim C5. In the state \<open>'password'\<close> with an address staged, when the login probe
  raises, whatever the error: the waiting state and the staged address of the chat are
  removed, no user is stored in memory or in the database, no monitoring thread is
  started, and the user is sent the notice that the test is running followed by the
  fixed failure message, which does not depend on the error; the error text goes to
  the log only. The chat is idle afterwards: further free text is ignored.
\<close>

theorem failed_probe_returns_to_idle:
  assumes "waiting_states b chat = Some AwaitPassword"
    and "temp_credentials b chat = Some email"
    and "probe env = ProbeRaises err"
  shows "handle_user_input env chat input info b =
           b\<lparr>waiting_states := (waiting_states b)(chat := None),
             temp_credentials := (temp_credentials b)(chat := None),
             sent := sent b @ [(chat, TestingConnection), (chat, ConnectionFailed)],
             bot_log := bot_log b @ [LogError (''Gmail connection failed: '' @ err)]\<rparr> \<and>
         waiting_states (handle_user_input env chat input info b) chat = None \<and>
         temp_credentials (handle_user_input env chat input info b) chat = None \<and>
         users (handle_user_input env chat input info b) = users b \<and>
         db_users (handle_user_input env chat input info b) = db_users b \<and>
         user_stats (handle_user_input env chat input info b) = user_stats b \<and>
         monitoring_threads (handle_user_input env chat input info b) = monitoring_threads b \<and>
         handle_user_input env' chat input' info' (handle_user_input env chat input info b) =
           handle_user_input env chat input info b"
proof -
  have eq: "handle_user_input env chat input info b =
           b\<lparr>waiting_states := (waiting_states b)(chat := None),
             temp_credentials := (temp_credentials b)(chat := None),
             sent := sent b @ [(chat, TestingConnection), (chat, ConnectionFailed)],
             bot_log := bot_log b @ [LogError (''Gmail connection failed: '' @ err)]\<rparr>"
    using assms
    by (simp add: handle_user_input_def connect_def clear_temporary_def send_def)
  have idle: "waiting_states (handle_user_input env chat input info b) chat = None"
    by (simp add: eq)
  from idle have "handle_user_input env' chat input' info' (handle_user_input env chat input info b) =
      handle_user_input env chat input info b"
    by (rule handle_user_input_idle)
  then show ?thesis
    using eq by simp
qed

theorem failed_probe_returns_to_idle_witness:
  "handle_user_input env_login_fails 5 ''abcd efgh ijkl mnop'' nobody
      (new_bot\<lparr>waiting_states := [5 \<mapsto> AwaitPassword],
               temp_credentials := [5 \<mapsto> ''user@example.com'']\<rparr>) =
     new_bot\<lparr>sent := [(5, TestingConnection), (5, ConnectionFailed)],
             bot_log := [LogError ''Gmail connection failed: AUTHENTICATIONFAILED'']\<rparr>"
proof -
  have w: "waiting_states (new_bot\<lparr>waiting_states := [5 \<mapsto> AwaitPassword],
               temp_credentials := [5 \<mapsto> ''user@example.com'']\<rparr>) 5 = Some AwaitPassword"
    and t: "temp_credentials (new_bot\<lparr>waiting_states := [5 \<mapsto> AwaitPassword],
               temp_credentials := [5 \<mapsto> ''user@example.com'']\<rparr>) 5 = Some ''user@example.com''"
    and p: "probe env_login_fails = ProbeRaises ''AUTHENTICATIONFAILED''"
    by (simp_all add: env_login_fails_def)
  from failed_probe_returns_to_idle [OF w t p, of "''abcd efgh ijkl mnop''" nobody]
  show ?thesis by (simp add: new_bot_def)
qed

end
